theory Spec2Isabelle
  imports Complex_Main "HOL-Library.Multiset"
begin

unbundle bit_operations_syntax

declare upt_rec_numeral [simp del]

section \<open>Data model\<close>

text \<open>
  A board is the Python list of 81 cells; a cell is \<^verbatim>\<open>None\<close> or a digit. Digits are
  natural numbers (the program only ever stores 0..8; a negative cell would raise
  \<^verbatim>\<open>ValueError\<close> at \<^verbatim>\<open>1 << e\<close> and is excluded by the type). Candidate masks are
  Python integers, hence \<^typ>\<open>int\<close> with the bit operations of HOL.
\<close>

type_synonym cell = "nat option"
type_synonym board = "cell list"
type_synonym guess = "(nat \<times> nat) list"

datatype error = IndexError

text \<open>
  The process-wide generator of \<^verbatim>\<open>random\<close> is made explicit: a list of raw draws that
  is consumed from the front, an exhausted list drawing 0. Every finite run of the
  program corresponds to some such list.
\<close>

type_synonym rnd = "nat list"

definition draw :: "rnd \<Rightarrow> nat \<times> rnd" where
  "draw r = (case r of [] \<Rightarrow> (0, []) | x # xs \<Rightarrow> (x, xs))"

text \<open>\<^verbatim>\<open>random.randint(0, c)\<close>: some integer of 0..c.\<close>

definition randint0 :: "rnd \<Rightarrow> nat \<Rightarrow> nat \<times> rnd" where
  "randint0 r c = (let (x, r') = draw r in (x mod (c + 1), r'))"

text \<open>
  \<^verbatim>\<open>random.shuffle(x)\<close>: for i from len(x) - 1 down to 1, swap x[i] with x[j] for a
  random j of 0..i.
\<close>

fun shuffle_from :: "nat \<Rightarrow> rnd \<Rightarrow> 'a list \<Rightarrow> 'a list \<times> rnd" where
  "shuffle_from 0 r xs = (xs, r)"
| "shuffle_from (Suc i) r xs =
     (let (j, r') = randint0 r (Suc i)
      in shuffle_from i r' (xs[Suc i := xs ! j, j := xs ! Suc i]))"

definition shuffle :: "rnd \<Rightarrow> 'a list \<Rightarrow> 'a list \<times> rnd" where
  "shuffle r xs = shuffle_from (length xs - 1) r xs"

section \<open>BoardModel\<close>

definition posfor :: "nat \<Rightarrow> nat \<Rightarrow> nat \<Rightarrow> nat" where
  "posfor x y axis =
     (if axis = 0 then x * 9 + y
      else if axis = 1 then y * 9 + x
      else [0, 3, 6, 27, 30, 33, 54, 57, 60] ! x + [0, 1, 2, 9, 10, 11, 18, 19, 20] ! y)"

definition axismissing :: "board \<Rightarrow> nat \<Rightarrow> nat \<Rightarrow> int" where
  "axismissing board x axis =
     511 XOR fold (\<lambda>y bits. case board ! posfor x y axis of
                               None \<Rightarrow> bits
                             | Some e \<Rightarrow> bits OR push_bit e 1) [0..<9] 0"

definition listbits :: "int \<Rightarrow> nat list" where
  "listbits bits = filter (\<lambda>y. 0 \<noteq> bits AND push_bit y 1) [0..<9]"

text \<open>The 27 lines in the order of the two outer loops: axis 0..2, then x 0..8.\<close>

definition axis_lines :: "(nat \<times> nat) list" where
  "axis_lines = concat (map (\<lambda>axis. map (\<lambda>x. (axis, x)) [0..<9]) [0..<3])"

definition figure_line :: "board \<Rightarrow> nat \<times> nat \<Rightarrow> int list \<times> int list \<Rightarrow> int list \<times> int list" where
  "figure_line board line st =
     (case line of (axis, x) \<Rightarrow> case st of (allowed, needed) \<Rightarrow>
        let bits = axismissing board x axis
        in (fold (\<lambda>y al. al[posfor x y axis := al ! posfor x y axis AND bits]) [0..<9] allowed,
            needed @ [bits]))"

text \<open>
  Every read \<^verbatim>\<open>board[p]\<close> of \<^verbatim>\<open>figurebits\<close> has p below 81, and the pass over the rows
  reads all of 0..80 before anything else happens: on a shorter board Python raises
  \<^verbatim>\<open>IndexError\<close>, on any other board nothing raises.
\<close>

definition figurebits :: "board \<Rightarrow> error + (int list \<times> int list)" where
  "figurebits board =
     (if length board < 81 then Inl IndexError
      else Inr (fold (figure_line board) axis_lines
                  (map (\<lambda>e. if e = None then 511 else 0) board, [])))"

definition pickbetter :: "rnd \<Rightarrow> guess option \<Rightarrow> nat \<Rightarrow> guess \<Rightarrow> (guess \<times> nat) \<times> rnd" where
  "pickbetter r b c t =
     (case b of
        None \<Rightarrow> ((t, 1), r)
      | Some bl \<Rightarrow>
          if length t < length bl then ((t, 1), r)
          else if length t > length bl then ((bl, c), r)
          else (let (x, r') = randint0 r c
                in if x = 0 then ((t, c + 1), r') else ((bl, c + 1), r')))"

section \<open>ConstraintEngine\<close>

text \<open>
  The local variables of one iteration of \<^verbatim>\<open>deduce\<close>'s outer loop: the board (mutated in
  place), \<^verbatim>\<open>stuck\<close>, \<^verbatim>\<open>guess\<close>, \<^verbatim>\<open>count\<close>, and the random source.
\<close>

record dstate =
  d_board :: board
  d_stuck :: bool
  d_guess :: "guess option"
  d_count :: nat
  d_rnd :: rnd

text \<open>An inner loop either runs to its end or executes \<^verbatim>\<open>return []\<close> in some state.\<close>

datatype flow = Continue dstate | Fail dstate

text \<open>\<^verbatim>\<open>guess, count = pickbetter(guess, count, t)\<close>\<close>

definition offer :: "guess \<Rightarrow> dstate \<Rightarrow> dstate" where
  "offer t s =
     (case pickbetter (d_rnd s) (d_guess s) (d_count s) t of
        ((g, c), r) \<Rightarrow> s\<lparr>d_guess := Some g, d_count := c, d_rnd := r\<rparr>)"

text \<open>The loop \<^verbatim>\<open>for pos in range(81)\<close> over the remaining positions.\<close>

fun naked :: "int list \<Rightarrow> nat list \<Rightarrow> dstate \<Rightarrow> flow" where
  "naked allowed [] s = Continue s"
| "naked allowed (pos # ps) s =
     (if d_board s ! pos = None then
        (if length (listbits (allowed ! pos)) = 0 then Fail s
         else if length (listbits (allowed ! pos)) = 1 then
           naked allowed ps
             (s\<lparr>d_board := (d_board s)[pos := Some (listbits (allowed ! pos) ! 0)],
                d_stuck := False\<rparr>)
         else if d_stuck s then
           naked allowed ps (offer (map (\<lambda>n. (pos, n)) (listbits (allowed ! pos))) s)
         else naked allowed ps s)
      else naked allowed ps s)"

definition spots_of :: "int list \<Rightarrow> nat \<Rightarrow> nat \<Rightarrow> nat \<Rightarrow> nat list" where
  "spots_of allowed x axis n =
     filter (\<lambda>pos. allowed ! pos AND push_bit n 1 \<noteq> 0) (map (\<lambda>y. posfor x y axis) [0..<9])"

text \<open>The loop \<^verbatim>\<open>for n in numbers\<close> of one line.\<close>

fun hidden_digits :: "int list \<Rightarrow> nat \<Rightarrow> nat \<Rightarrow> nat list \<Rightarrow> dstate \<Rightarrow> flow" where
  "hidden_digits allowed x axis [] s = Continue s"
| "hidden_digits allowed x axis (n # ns) s =
     (if length (spots_of allowed x axis n) = 0 then Fail s
      else if length (spots_of allowed x axis n) = 1 then
        hidden_digits allowed x axis ns
          (s\<lparr>d_board := (d_board s)[spots_of allowed x axis n ! 0 := Some n], d_stuck := False\<rparr>)
      else if d_stuck s then
        hidden_digits allowed x axis ns (offer (map (\<lambda>pos. (pos, n)) (spots_of allowed x axis n)) s)
      else hidden_digits allowed x axis ns s)"

text \<open>The loops \<^verbatim>\<open>for axis in range(3): for x in range(9)\<close> over the remaining lines.\<close>

fun hidden :: "int list \<Rightarrow> int list \<Rightarrow> (nat \<times> nat) list \<Rightarrow> dstate \<Rightarrow> flow" where
  "hidden allowed needed [] s = Continue s"
| "hidden allowed needed ((axis, x) # ls) s =
     (case hidden_digits allowed x axis (listbits (needed ! (axis * 9 + x))) s of
        Fail s' \<Rightarrow> Fail s'
      | Continue s' \<Rightarrow> hidden allowed needed ls s')"

text \<open>
  One iteration of \<^verbatim>\<open>while True\<close>: it returns (\<^verbatim>\<open>[]\<close> is \<open>Some []\<close>, \<^verbatim>\<open>None\<close> is
  \<open>None\<close>, a branch set is \<open>Some g\<close>), together with the board as mutated and the
  random source as advanced, or it goes round again.
\<close>

datatype iter = Returns "guess option" board rnd | Repeat board rnd

definition deduce_iter :: "rnd \<Rightarrow> board \<Rightarrow> error + iter" where
  "deduce_iter r board =
     (case figurebits board of
        Inl e \<Rightarrow> Inl e
      | Inr (allowed, needed) \<Rightarrow>
          (case naked allowed [0..<81]
                  \<lparr>d_board = board, d_stuck = True, d_guess = None, d_count = 0, d_rnd = r\<rparr> of
             Fail s \<Rightarrow> Inr (Returns (Some []) (d_board s) (d_rnd s))
           | Continue s \<Rightarrow>
               (case (if \<not> d_stuck s then figurebits (d_board s) else Inr (allowed, needed)) of
                  Inl e \<Rightarrow> Inl e
                | Inr (allowed', needed') \<Rightarrow>
                    (case hidden allowed' needed' axis_lines s of
                       Fail s' \<Rightarrow> Inr (Returns (Some []) (d_board s') (d_rnd s'))
                     | Continue s' \<Rightarrow>
                         if d_stuck s' then
                           (case d_guess s' of
                              None \<Rightarrow> Inr (Returns None (d_board s') (d_rnd s'))
                            | Some g \<Rightarrow>
                                (case shuffle (d_rnd s') g of
                                   (g', r') \<Rightarrow> Inr (Returns (Some g') (d_board s') r')))
                         else Inr (Repeat (d_board s') (d_rnd s'))))))"

text \<open>The number of empty cells among the 81 positions.\<close>

definition empties :: "board \<Rightarrow> nat" where
  "empties b = length (filter (\<lambda>p. p < length b \<and> b ! p = None) [0..<81])"

function deduce :: "rnd \<Rightarrow> board \<Rightarrow> error + (guess option \<times> board \<times> rnd)" where
  "deduce r board =
     (case deduce_iter r board of
        Inl e \<Rightarrow> Inl e
      | Inr (Returns g b' r') \<Rightarrow> Inr (g, b', r')
      | Inr (Repeat b' r') \<Rightarrow> deduce r' b')"
  by pat_completeness auto

section \<open>Masks and lines\<close>

lemma set_listbits: "set (listbits m) = {n. n < 9 \<and> bit m n}"
  by (auto simp: listbits_def bit_iff_and_push_bit_not_eq_0)

lemma distinct_listbits: "distinct (listbits m)"
  by (simp add: listbits_def)

lemma bit_fold_or:
  "bit (fold (\<lambda>y bits. case f y of None \<Rightarrow> bits | Some e \<Rightarrow> bits OR push_bit e (1::int)) ys acc) n
     \<longleftrightarrow> bit acc n \<or> (\<exists>y \<in> set ys. f y = Some n)"
  by (induction ys arbitrary: acc) (auto simp: bit_or_iff bit_exp_iff split: option.splits)

lemma bit_511: "bit (511::int) n \<longleftrightarrow> n < 9"
proof -
  have "bit (mask 9 :: int) n \<longleftrightarrow> n < 9" by (simp only: bit_mask_iff) simp
  moreover have "(mask 9 :: int) = 511" by (simp add: mask_eq_exp_minus_1)
  ultimately show ?thesis by simp
qed

lemma bit_axismissing:
  "bit (axismissing b x axis) n \<longleftrightarrow> (n < 9) \<noteq> (\<exists>y<9. b ! posfor x y axis = Some n)"
  unfolding axismissing_def bit_xor_iff bit_511 bit_fold_or by auto

lemma length_fold_upd:
  "length (fold (\<lambda>y al. al[f y := g al y]) ys al) = length al"
  by (induction ys arbitrary: al) auto

lemma nth_fold_and:
  "p < length al \<Longrightarrow>
   fold (\<lambda>y al. al[f y := al ! f y AND (bits::int)]) ys al ! p =
     (if p \<in> f ` set ys then al ! p AND bits else al ! p)"
proof (induction ys arbitrary: al)
  case Nil
  then show ?case by simp
next
  case (Cons y ys)
  have len: "p < length (al[f y := al ! f y AND bits])" using Cons.prems by simp
  show ?case
  proof (cases "f y = p")
    case True
    then show ?thesis using Cons.prems Cons.IH [OF len] by (auto simp: and.assoc)
  next
    case False
    then show ?thesis using Cons.prems Cons.IH [OF len] by auto
  qed
qed

definition on_line :: "nat \<Rightarrow> nat \<times> nat \<Rightarrow> bool" where
  "on_line p l = (case l of (axis, x) \<Rightarrow> p \<in> (\<lambda>y. posfor x y axis) ` {0..<9})"

lemma figure_line_fold:
  "fold (figure_line b) ls (al, nd) = (al', nd') \<Longrightarrow>
     length al' = length al \<and>
     nd' = nd @ map (\<lambda>(axis, x). axismissing b x axis) ls \<and>
     (\<forall>p < length al. \<forall>n. bit (al' ! p) n \<longleftrightarrow>
        bit (al ! p) n \<and> (\<forall>l \<in> set ls. on_line p l \<longrightarrow> bit (axismissing b (snd l) (fst l)) n))"
proof (induction ls arbitrary: al nd)
  case Nil
  then show ?case by simp
next
  case (Cons l ls)
  obtain axis x where l: "l = (axis, x)" by (cases l)
  let ?al1 = "fold (\<lambda>y al. al[posfor x y axis := al ! posfor x y axis AND axismissing b x axis]) [0..<9] al"
  have one: "figure_line b l (al, nd) = (?al1, nd @ [axismissing b x axis])"
    by (simp add: l figure_line_def Let_def)
  have step: "fold (figure_line b) ls (?al1, nd @ [axismissing b x axis]) = (al', nd')"
    using Cons.prems by (simp only: fold_simps one)
  note IH = Cons.IH [OF step]
  have len1: "length ?al1 = length al" by (rule length_fold_upd)
  show ?case
    using IH unfolding len1
    by (auto simp: l nth_fold_and on_line_def bit_and_iff)
qed

lemma lt9_cases:
  "x < (9::nat) \<Longrightarrow> x = 0 \<or> x = 1 \<or> x = 2 \<or> x = 3 \<or> x = 4 \<or> x = 5 \<or> x = 6 \<or> x = 7 \<or> x = 8"
  by arith

lemma all_lt9:
  "(\<forall>x<9. P x) \<longleftrightarrow> P (0::nat) \<and> P 1 \<and> P 2 \<and> P 3 \<and> P 4 \<and> P 5 \<and> P 6 \<and> P 7 \<and> P 8"
  by (auto dest!: lt9_cases)

lemma box_row_le: "\<forall>x<9. [0, 3, 6, 27, 30, 33, 54, 57, 60] ! x \<le> (60::nat)"
  unfolding all_lt9 by simp

lemma box_col_le: "\<forall>y<9. [0, 1, 2, 9, 10, 11, 18, 19, 20] ! y \<le> (20::nat)"
  unfolding all_lt9 by simp

lemma posfor_less: "x < 9 \<Longrightarrow> y < 9 \<Longrightarrow> posfor x y axis < 81"
  using box_row_le box_col_le by (fastforce simp: posfor_def)

lemma empties_card: "empties b = card {p. p < 81 \<and> p < length b \<and> b ! p = None}"
proof -
  have "empties b = card ({p. p < length b \<and> b ! p = None} \<inter> set [0..<81])"
    unfolding empties_def by (rule distinct_length_filter) (rule distinct_upt)
  also have "{p. p < length b \<and> b ! p = None} \<inter> set [0..<81] = {p. p < 81 \<and> p < length b \<and> b ! p = None}"
    unfolding set_upt by auto
  finally show ?thesis .
qed

lemma empties_mono:
  assumes "length a = length b" and "\<And>p. p < 81 \<Longrightarrow> p < length b \<Longrightarrow> b ! p = None \<Longrightarrow> a ! p = None"
  shows "empties b \<le> empties a"
proof -
  have "{p. p < 81 \<and> p < length b \<and> b ! p = None} \<subseteq> {p. p < 81 \<and> p < length a \<and> a ! p = None}"
    using assms by auto
  moreover have "finite {p. p < 81 \<and> p < length a \<and> a ! p = None}" by simp
  ultimately show ?thesis unfolding empties_card by (rule card_mono [rotated])
qed

lemma empties_less:
  assumes "length a = length b" and "\<And>p. p < 81 \<Longrightarrow> p < length b \<Longrightarrow> b ! p = None \<Longrightarrow> a ! p = None"
    and "q < 81" and "q < length b" and "a ! q = None" and "b ! q \<noteq> None"
  shows "empties b < empties a"
proof -
  have "{p. p < 81 \<and> p < length b \<and> b ! p = None} \<subseteq> {p. p < 81 \<and> p < length a \<and> a ! p = None}"
    using assms(1,2) by auto
  moreover have "q \<in> {p. p < 81 \<and> p < length a \<and> a ! p = None}"
    using assms by simp
  moreover have "q \<notin> {p. p < 81 \<and> p < length b \<and> b ! p = None}"
    using assms by simp
  ultimately have "{p. p < 81 \<and> p < length b \<and> b ! p = None} \<subset> {p. p < 81 \<and> p < length a \<and> a ! p = None}"
    by blast
  moreover have "finite {p. p < 81 \<and> p < length a \<and> a ! p = None}" by simp
  ultimately show ?thesis unfolding empties_card by (rule psubset_card_mono [rotated])
qed

section \<open>Progress of the passes of deduce\<close>

definition writable :: "int list \<Rightarrow> nat set" where
  "writable al = {p. p < 81 \<and> al ! p \<noteq> 0}"

definition progress :: "int list \<Rightarrow> dstate \<Rightarrow> dstate \<Rightarrow> bool" where
  "progress al s s' \<longleftrightarrow>
     length (d_board s') = length (d_board s) \<and>
     (\<forall>p. d_board s' ! p \<noteq> d_board s ! p \<longrightarrow> p \<in> writable al \<and> d_board s' ! p \<noteq> None) \<and>
     (d_stuck s' \<longrightarrow> d_stuck s \<and> d_board s' = d_board s) \<and>
     (d_stuck s \<and> \<not> d_stuck s' \<longrightarrow> (\<exists>p \<in> writable al. d_board s' ! p \<noteq> None))"

lemma progressI:
  assumes "length (d_board s') = length (d_board s)"
    and "\<And>p. d_board s' ! p \<noteq> d_board s ! p \<Longrightarrow> p \<in> writable al \<and> d_board s' ! p \<noteq> None"
    and "d_stuck s' \<Longrightarrow> d_stuck s \<and> d_board s' = d_board s"
    and "d_stuck s \<Longrightarrow> \<not> d_stuck s' \<Longrightarrow> \<exists>p \<in> writable al. d_board s' ! p \<noteq> None"
  shows "progress al s s'"
  unfolding progress_def using assms by blast

lemma progress_length: "progress al s s' \<Longrightarrow> length (d_board s') = length (d_board s)"
  unfolding progress_def by blast

lemma progress_change:
  "progress al s s' \<Longrightarrow> d_board s' ! p \<noteq> d_board s ! p \<Longrightarrow> p \<in> writable al \<and> d_board s' ! p \<noteq> None"
  unfolding progress_def by blast

lemma progress_stuck: "progress al s s' \<Longrightarrow> d_stuck s' \<Longrightarrow> d_stuck s \<and> d_board s' = d_board s"
  unfolding progress_def by blast

lemma progress_strict:
  "progress al s s' \<Longrightarrow> d_stuck s \<Longrightarrow> \<not> d_stuck s' \<Longrightarrow> \<exists>p \<in> writable al. d_board s' ! p \<noteq> None"
  unfolding progress_def by blast

lemma progress_refl: "progress al s s"
  by (rule progressI) auto

lemma progress_trans:
  assumes a: "progress al s s'" and b: "progress al s' s''"
  shows "progress al s s''"
proof (rule progressI)
  show "length (d_board s'') = length (d_board s)"
    using progress_length [OF a] progress_length [OF b] by simp
next
  fix p assume "d_board s'' ! p \<noteq> d_board s ! p"
  then show "p \<in> writable al \<and> d_board s'' ! p \<noteq> None"
    using progress_change [OF a, of p] progress_change [OF b, of p] by metis
next
  assume "d_stuck s''"
  then show "d_stuck s \<and> d_board s'' = d_board s"
    using progress_stuck [OF a] progress_stuck [OF b] by metis
next
  assume st: "d_stuck s" "\<not> d_stuck s''"
  show "\<exists>p \<in> writable al. d_board s'' ! p \<noteq> None"
  proof (cases "d_stuck s'")
    case True
    then show ?thesis using progress_strict [OF b] st by blast
  next
    case False
    then obtain p where p: "p \<in> writable al" "d_board s' ! p \<noteq> None"
      using progress_strict [OF a] st by blast
    then have "d_board s'' ! p \<noteq> None"
      using progress_change [OF b, of p] by metis
    with p show ?thesis by blast
  qed
qed

lemma offer_fields [simp]:
  "d_board (offer t s) = d_board s" "d_stuck (offer t s) = d_stuck s"
  by (simp_all add: offer_def split: prod.splits)

lemma progress_offer: "progress al s (offer t s)"
  by (rule progressI) simp_all

lemma progress_assign:
  assumes "p \<in> writable al" and "p < length (d_board s)"
  shows "progress al s (s\<lparr>d_board := (d_board s)[p := Some n], d_stuck := False\<rparr>)"
proof (rule progressI)
  fix q assume "d_board (s\<lparr>d_board := (d_board s)[p := Some n], d_stuck := False\<rparr>) ! q \<noteq> d_board s ! q"
  then have "q = p" by (cases "q = p") simp_all
  then show "q \<in> writable al \<and> d_board (s\<lparr>d_board := (d_board s)[p := Some n], d_stuck := False\<rparr>) ! q \<noteq> None"
    using assms by simp
next
  show "\<exists>q \<in> writable al. d_board (s\<lparr>d_board := (d_board s)[p := Some n], d_stuck := False\<rparr>) ! q \<noteq> None"
    using assms by (intro bexI [of _ p]) simp_all
qed simp_all

fun flow_state :: "flow \<Rightarrow> dstate" where
  "flow_state (Continue s) = s"
| "flow_state (Fail s) = s"

lemma nonzero_bit: "(a::int) \<noteq> 0 \<Longrightarrow> \<exists>n. bit a n"
  by (auto simp: bit_eq_iff)

lemma listbits_nonempty: "listbits m \<noteq> [] \<Longrightarrow> m \<noteq> 0"
  by (auto simp: listbits_def)

lemma and_bit_nonzero: "(a::int) AND push_bit n 1 \<noteq> 0 \<Longrightarrow> a \<noteq> 0"
  by auto

lemma naked_progress:
  "set ps \<subseteq> {..<81} \<Longrightarrow> 81 \<le> length (d_board s) \<Longrightarrow> progress al s (flow_state (naked al ps s))"
proof (induction ps arbitrary: s)
  case Nil
  then show ?case by (simp add: progress_refl)
next
  case (Cons pos ps)
  have ps: "set ps \<subseteq> {..<81}" and pos: "pos < 81" using Cons.prems by auto
  let ?nums = "listbits (al ! pos)"
  show ?case
  proof (cases "d_board s ! pos = None \<and> length ?nums = 1")
    case True
    let ?s1 = "s\<lparr>d_board := (d_board s)[pos := Some (?nums ! 0)], d_stuck := False\<rparr>"
    have "?nums \<noteq> []" using True by auto
    then have "pos \<in> writable al" using pos listbits_nonempty by (simp add: writable_def)
    then have 1: "progress al s ?s1" using Cons.prems pos by (intro progress_assign) auto
    have "81 \<le> length (d_board ?s1)" using Cons.prems by simp
    from Cons.IH [OF ps this] have 2: "progress al ?s1 (flow_state (naked al ps ?s1))" .
    have "naked al (pos # ps) s = naked al ps ?s1" using True by simp
    then show ?thesis using progress_trans [OF 1 2] by simp
  next
    case False
    note F = this
    show ?thesis
    proof (cases "d_board s ! pos = None \<and> length ?nums = 0")
      case True
      then show ?thesis by (simp add: progress_refl)
    next
      case False
      show ?thesis
      proof (cases "d_board s ! pos = None \<and> d_stuck s")
        case True
        let ?s1 = "offer (map (\<lambda>n. (pos, n)) ?nums) s"
        have e: "naked al (pos # ps) s = naked al ps ?s1" using True F False by simp
        have "81 \<le> length (d_board ?s1)" using Cons.prems by simp
        from Cons.IH [OF ps this] progress_offer [of al s] show ?thesis
          unfolding e using progress_trans by blast
      next
        case False
        then have e: "naked al (pos # ps) s = naked al ps s" using F \<open>\<not> (d_board s ! pos = None \<and> length ?nums = 0)\<close> by auto
        show ?thesis unfolding e using Cons.IH [OF ps] Cons.prems by simp
      qed
    qed
  qed
qed

lemma spots_of_writable: "x < 9 \<Longrightarrow> set (spots_of al x axis n) \<subseteq> writable al"
  by (auto simp: spots_of_def writable_def posfor_less)

lemma hidden_digits_progress:
  "x < 9 \<Longrightarrow> 81 \<le> length (d_board s) \<Longrightarrow> progress al s (flow_state (hidden_digits al x axis ns s))"
proof (induction ns arbitrary: s)
  case Nil
  then show ?case by (simp add: progress_refl)
next
  case (Cons n ns)
  let ?spots = "spots_of al x axis n"
  show ?case
  proof (cases "length ?spots = 0")
    case True
    then show ?thesis by (simp add: progress_refl)
  next
    case False
    note F = this
    show ?thesis
    proof (cases "length ?spots = 1")
      case True
      let ?s1 = "s\<lparr>d_board := (d_board s)[?spots ! 0 := Some n], d_stuck := False\<rparr>"
      have "?spots ! 0 \<in> set ?spots" using True by (intro nth_mem) simp
      then have w: "?spots ! 0 \<in> writable al" using spots_of_writable [OF Cons.prems(1)] by blast
      then have "?spots ! 0 < length (d_board s)" using Cons.prems by (simp add: writable_def)
      with w have 1: "progress al s ?s1" by (rule progress_assign)
      have "81 \<le> length (d_board ?s1)" using Cons.prems by simp
      from Cons.IH [OF Cons.prems(1) this] have 2: "progress al ?s1 (flow_state (hidden_digits al x axis ns ?s1))" .
      have "hidden_digits al x axis (n # ns) s = hidden_digits al x axis ns ?s1" using True by simp
      then show ?thesis using progress_trans [OF 1 2] by simp
    next
      case False
      show ?thesis
      proof (cases "d_stuck s")
        case True
        let ?s1 = "offer (map (\<lambda>pos. (pos, n)) ?spots) s"
        have e: "hidden_digits al x axis (n # ns) s = hidden_digits al x axis ns ?s1"
          using True F False by simp
        have "81 \<le> length (d_board ?s1)" using Cons.prems by simp
        from Cons.IH [OF Cons.prems(1) this] progress_offer [of al s] show ?thesis
          unfolding e using progress_trans by blast
      next
        case False
        then have e: "hidden_digits al x axis (n # ns) s = hidden_digits al x axis ns s"
          using F \<open>length ?spots \<noteq> 1\<close> by simp
        show ?thesis unfolding e using Cons.IH Cons.prems by simp
      qed
    qed
  qed
qed

lemma hidden_progress:
  "\<forall>l \<in> set ls. snd l < 9 \<Longrightarrow> 81 \<le> length (d_board s) \<Longrightarrow>
   progress al s (flow_state (hidden al nd ls s))"
proof (induction ls arbitrary: s)
  case Nil
  then show ?case by (simp add: progress_refl)
next
  case (Cons l ls)
  obtain axis x where l: "l = (axis, x)" by (cases l)
  have x: "x < 9" using Cons.prems l by simp
  let ?f = "hidden_digits al x axis (listbits (nd ! (axis * 9 + x))) s"
  have 1: "progress al s (flow_state ?f)" using hidden_digits_progress [OF x Cons.prems(2)] .
  show ?case
  proof (cases ?f)
    case (Fail s')
    then show ?thesis using 1 by (simp add: l)
  next
    case (Continue s')
    then have p1: "progress al s s'" using 1 by simp
    then have "81 \<le> length (d_board s')" using Cons.prems(2) progress_length by metis
    from Cons.IH [OF _ this] Cons.prems(1) have "progress al s' (flow_state (hidden al nd ls s'))" by simp
    moreover have "hidden al nd (l # ls) s = hidden al nd ls s'" using Continue by (simp add: l)
    ultimately show ?thesis using p1 progress_trans by metis
  qed
qed

lemma axis_lines_eq:
  "axis_lines = [(0,0),(0,1),(0,2),(0,3),(0,4),(0,5),(0,6),(0,7),(0,8),
                 (1,0),(1,1),(1,2),(1,3),(1,4),(1,5),(1,6),(1,7),(1,8),
                 (2,0),(2,1),(2,2),(2,3),(2,4),(2,5),(2,6),(2,7),(2,8)]"
  by code_simp

lemma set_axis_lines: "set axis_lines = {..<3} \<times> {..<9}"
  by (auto simp: axis_lines_def)

definition dinit :: "rnd \<Rightarrow> board \<Rightarrow> dstate" where
  "dinit r b = \<lparr>d_board = b, d_stuck = True, d_guess = None, d_count = 0, d_rnd = r\<rparr>"

lemma dinit_fields [simp]:
  "d_board (dinit r b) = b" "d_stuck (dinit r b)" "d_guess (dinit r b) = None"
  "d_count (dinit r b) = 0" "d_rnd (dinit r b) = r"
  by (simp_all add: dinit_def)

lemma figurebits_Inr:
  assumes "figurebits b = Inr (al, nd)"
  shows "81 \<le> length b" and "length al = length b"
    and "nd = map (\<lambda>(axis, x). axismissing b x axis) axis_lines"
    and "\<And>p n. p < length b \<Longrightarrow> bit (al ! p) n \<longleftrightarrow>
           b ! p = None \<and> n < 9 \<and> (\<forall>l \<in> set axis_lines. on_line p l \<longrightarrow> bit (axismissing b (snd l) (fst l)) n)"
proof -
  show len: "81 \<le> length b" using assms by (auto simp: figurebits_def split: if_splits)
  let ?al0 = "map (\<lambda>e. if e = None then (511::int) else 0) b"
  have f: "fold (figure_line b) axis_lines (?al0, []) = (al, nd)"
    using assms len by (simp add: figurebits_def)
  note F = figure_line_fold [OF f]
  show "length al = length b" using F by simp
  show "nd = map (\<lambda>(axis, x). axismissing b x axis) axis_lines" using F by simp
  fix p n assume p: "p < length b"
  have "bit (?al0 ! p) n \<longleftrightarrow> b ! p = None \<and> n < 9" using p by (simp add: bit_511)
  moreover have "bit (al ! p) n \<longleftrightarrow> bit (?al0 ! p) n \<and>
      (\<forall>l \<in> set axis_lines. on_line p l \<longrightarrow> bit (axismissing b (snd l) (fst l)) n)"
    using F p by simp
  ultimately show "bit (al ! p) n \<longleftrightarrow>
           b ! p = None \<and> n < 9 \<and> (\<forall>l \<in> set axis_lines. on_line p l \<longrightarrow> bit (axismissing b (snd l) (fst l)) n)"
    by blast
qed

lemma figurebits_ok: "81 \<le> length b \<Longrightarrow> \<exists>al nd. figurebits b = Inr (al, nd)"
  by (simp add: figurebits_def)

lemma figurebits_writable:
  assumes "figurebits b = Inr (al, nd)" and "p \<in> writable al"
  shows "p < 81 \<and> b ! p = None"
proof -
  have p: "p < 81" "al ! p \<noteq> 0" using assms(2) by (auto simp: writable_def)
  then obtain n where "bit (al ! p) n" using nonzero_bit by blast
  moreover have "p < length b" using figurebits_Inr(1) [OF assms(1)] p by simp
  ultimately show ?thesis using figurebits_Inr(4) [OF assms(1)] p by blast
qed

text \<open>The shape of one iteration.\<close>

lemma deduce_iter_cases [consumes 1, case_names naked_fail hidden_fail solved branch again]:
  assumes "deduce_iter r b = Inr res"
  obtains
    (naked_fail) al nd s where "figurebits b = Inr (al, nd)"
      "naked al [0..<81] (dinit r b) = Fail s" "res = Returns (Some []) (d_board s) (d_rnd s)"
  | (hidden_fail) al nd s al' nd' s' where "figurebits b = Inr (al, nd)"
      "naked al [0..<81] (dinit r b) = Continue s" "figurebits (d_board s) = Inr (al', nd')"
      "hidden al' nd' axis_lines s = Fail s'" "res = Returns (Some []) (d_board s') (d_rnd s')"
  | (solved) al nd s al' nd' s' where "figurebits b = Inr (al, nd)"
      "naked al [0..<81] (dinit r b) = Continue s" "figurebits (d_board s) = Inr (al', nd')"
      "hidden al' nd' axis_lines s = Continue s'" "d_stuck s'" "d_guess s' = None"
      "res = Returns None (d_board s') (d_rnd s')"
  | (branch) al nd s al' nd' s' g g' r' where "figurebits b = Inr (al, nd)"
      "naked al [0..<81] (dinit r b) = Continue s" "figurebits (d_board s) = Inr (al', nd')"
      "hidden al' nd' axis_lines s = Continue s'" "d_stuck s'" "d_guess s' = Some g"
      "shuffle (d_rnd s') g = (g', r')" "res = Returns (Some g') (d_board s') r'"
  | (again) al nd s al' nd' s' where "figurebits b = Inr (al, nd)"
      "naked al [0..<81] (dinit r b) = Continue s" "figurebits (d_board s) = Inr (al', nd')"
      "hidden al' nd' axis_lines s = Continue s'" "\<not> d_stuck s'"
      "res = Repeat (d_board s') (d_rnd s')"
proof -
  from assms obtain al nd where fig: "figurebits b = Inr (al, nd)"
    by (cases "figurebits b") (auto simp: deduce_iter_def)
  have len: "81 \<le> length b" using figurebits_Inr(1) [OF fig] .
  have up: "set [0..<81] \<subseteq> {..<81}" by auto
  have np: "progress al (dinit r b) (flow_state (naked al [0..<81] (dinit r b)))"
    using naked_progress [OF up, of "dinit r b" al] len by simp
  show thesis
  proof (cases "naked al [0..<81] (dinit r b)")
    case (Fail s)
    then have "res = Returns (Some []) (d_board s) (d_rnd s)"
      using assms fig by (simp add: deduce_iter_def dinit_def)
    with fig Fail show thesis by (rule naked_fail)
  next
    case (Continue s)
    have ps: "progress al (dinit r b) s" using np Continue by simp
    have lens: "81 \<le> length (d_board s)" using progress_length [OF ps] len by simp
    have "d_stuck s \<Longrightarrow> d_board s = b" using progress_stuck [OF ps] by simp
    then obtain al' nd' where fig': "figurebits (d_board s) = Inr (al', nd')"
      and sel: "(if \<not> d_stuck s then figurebits (d_board s) else Inr (al, nd)) = Inr (al', nd')"
      using fig figurebits_ok [OF lens] by (cases "d_stuck s") auto
    have H: "deduce_iter r b = (case hidden al' nd' axis_lines s of
                 Fail s' \<Rightarrow> Inr (Returns (Some []) (d_board s') (d_rnd s'))
               | Continue s' \<Rightarrow>
                   if d_stuck s' then
                     (case d_guess s' of
                        None \<Rightarrow> Inr (Returns None (d_board s') (d_rnd s'))
                      | Some g \<Rightarrow>
                          (case shuffle (d_rnd s') g of
                             (g', r') \<Rightarrow> Inr (Returns (Some g') (d_board s') r')))
                   else Inr (Repeat (d_board s') (d_rnd s')))"
      using fig Continue sel by (simp add: deduce_iter_def dinit_def)
    note re = assms [unfolded H]
    show thesis
    proof (cases "hidden al' nd' axis_lines s")
      case (Fail s')
      then have "res = Returns (Some []) (d_board s') (d_rnd s')" using re by simp
      with fig Continue fig' Fail show thesis by (rule hidden_fail)
    next
      case C: (Continue s')
      show thesis
      proof (cases "d_stuck s'")
        case False
        then have "res = Repeat (d_board s') (d_rnd s')" using re C by simp
        with fig Continue fig' C False show thesis by (rule again)
      next
        case True
        show thesis
        proof (cases "d_guess s'")
          case None
          then have "res = Returns None (d_board s') (d_rnd s')" using re C True by simp
          with fig Continue fig' C True None show thesis by (rule solved)
        next
          case (Some g)
          obtain g' r' where sh: "shuffle (d_rnd s') g = (g', r')" by (cases "shuffle (d_rnd s') g")
          then have "res = Returns (Some g') (d_board s') r'" using re C True Some by simp
          with fig Continue fig' C True Some sh show thesis by (rule branch)
        qed
      qed
    qed
  qed
qed

text \<open>
  \<open>extends a b\<close>: board \<open>b\<close> is board \<open>a\<close> with some of its empty cells (among the 81)
  filled in.
\<close>

definition extends :: "board \<Rightarrow> board \<Rightarrow> bool" where
  "extends a b \<longleftrightarrow>
     length b = length a \<and> (\<forall>p. b ! p \<noteq> a ! p \<longrightarrow> p < 81 \<and> a ! p = None \<and> b ! p \<noteq> None)"

lemma extends_refl: "extends a a"
  by (simp add: extends_def)

lemma extends_trans: "extends a b \<Longrightarrow> extends b c \<Longrightarrow> extends a c"
  unfolding extends_def by metis

lemma extends_length: "extends a b \<Longrightarrow> length b = length a"
  by (simp add: extends_def)

lemma extends_filled: "extends a b \<Longrightarrow> a ! p = Some d \<Longrightarrow> b ! p = Some d"
  unfolding extends_def by (metis option.distinct(1))

lemma extends_empty: "extends a b \<Longrightarrow> b ! p = None \<Longrightarrow> a ! p = None"
  unfolding extends_def by metis

lemma extends_empties: "extends a b \<Longrightarrow> empties b \<le> empties a"
  by (rule empties_mono) (auto simp: extends_length dest: extends_empty)

lemma extends_empties_less:
  assumes "extends a b" and "a \<noteq> b"
  shows "empties b < empties a"
proof -
  have len: "length a = length b" using assms(1) by (simp add: extends_length)
  with assms(2) obtain q where q: "q < length a" "a ! q \<noteq> b ! q"
    using nth_equalityI by blast
  then have "q < 81" "a ! q = None" "b ! q \<noteq> None"
    using assms(1) unfolding extends_def by metis+
  with q len show ?thesis
    using extends_empty [OF assms(1)] by (intro empties_less [where q = q]) auto
qed

lemma progress_extends:
  assumes "figurebits b = Inr (al, nd)" and "progress al s s'" and "d_board s = b"
  shows "extends b (d_board s')"
proof -
  have len: "length (d_board s') = length b" using progress_length [OF assms(2)] assms(3) by simp
  have "p < 81 \<and> b ! p = None \<and> d_board s' ! p \<noteq> None" if "d_board s' ! p \<noteq> b ! p" for p
  proof -
    have "p \<in> writable al \<and> d_board s' ! p \<noteq> None"
      using progress_change [OF assms(2), of p] assms(3) that by simp
    then show ?thesis using figurebits_writable [OF assms(1)] by blast
  qed
  with len show ?thesis unfolding extends_def by blast
qed

lemma progress_changed:
  assumes "figurebits b = Inr (al, nd)" and "progress al s s'" and "d_board s = b"
    and "d_stuck s" and "\<not> d_stuck s'"
  shows "d_board s' \<noteq> b"
proof -
  obtain p where "p \<in> writable al" "d_board s' ! p \<noteq> None"
    using progress_strict [OF assms(2,4,5)] by blast
  moreover from this have "b ! p = None" using figurebits_writable [OF assms(1)] by blast
  ultimately show ?thesis by metis
qed

fun iter_board :: "iter \<Rightarrow> board" where
  "iter_board (Returns g b r) = b"
| "iter_board (Repeat b r) = b"

lemma all_lines_lt9: "\<forall>l \<in> set axis_lines. snd l < 9"
  by (auto simp: set_axis_lines)

lemma deduce_iter_extends:
  assumes "deduce_iter r b = Inr res"
  shows "extends b (iter_board res)" and "81 \<le> length b"
    and "\<And>b' r'. res = Repeat b' r' \<Longrightarrow> b' \<noteq> b"
proof -
  have up: "set [0..<81] \<subseteq> {..<81}" by auto
  have "extends b (iter_board res) \<and> 81 \<le> length b \<and> (\<forall>b' r'. res = Repeat b' r' \<longrightarrow> b' \<noteq> b)"
    using assms
  proof (cases rule: deduce_iter_cases)
    case (naked_fail al nd s)
    have len: "81 \<le> length b" using figurebits_Inr(1) [OF naked_fail(1)] .
    have "progress al (dinit r b) s"
      using naked_progress [OF up, of "dinit r b" al] len naked_fail(2) by simp
    from progress_extends [OF naked_fail(1) this] len naked_fail(3) show ?thesis by simp
  next
    case (hidden_fail al nd s al' nd' s')
    have len: "81 \<le> length b" using figurebits_Inr(1) [OF hidden_fail(1)] .
    have p1: "progress al (dinit r b) s"
      using naked_progress [OF up, of "dinit r b" al] len hidden_fail(2) by simp
    have e1: "extends b (d_board s)" using progress_extends [OF hidden_fail(1) p1] by simp
    have "81 \<le> length (d_board s)" using figurebits_Inr(1) [OF hidden_fail(3)] .
    from hidden_progress [OF all_lines_lt9 this, of al' nd'] hidden_fail(4)
    have p2: "progress al' s s'" by simp
    have e2: "extends (d_board s) (d_board s')" using progress_extends [OF hidden_fail(3) p2] by simp
    from extends_trans [OF e1 e2] len hidden_fail(5) show ?thesis by simp
  next
    case (solved al nd s al' nd' s')
    have len: "81 \<le> length b" using figurebits_Inr(1) [OF solved(1)] .
    have p1: "progress al (dinit r b) s"
      using naked_progress [OF up, of "dinit r b" al] len solved(2) by simp
    have e1: "extends b (d_board s)" using progress_extends [OF solved(1) p1] by simp
    have "81 \<le> length (d_board s)" using figurebits_Inr(1) [OF solved(3)] .
    from hidden_progress [OF all_lines_lt9 this, of al' nd'] solved(4)
    have p2: "progress al' s s'" by simp
    have e2: "extends (d_board s) (d_board s')" using progress_extends [OF solved(3) p2] by simp
    from extends_trans [OF e1 e2] len solved(7) show ?thesis by simp
  next
    case (branch al nd s al' nd' s' g g' r')
    have len: "81 \<le> length b" using figurebits_Inr(1) [OF branch(1)] .
    have p1: "progress al (dinit r b) s"
      using naked_progress [OF up, of "dinit r b" al] len branch(2) by simp
    have e1: "extends b (d_board s)" using progress_extends [OF branch(1) p1] by simp
    have "81 \<le> length (d_board s)" using figurebits_Inr(1) [OF branch(3)] .
    from hidden_progress [OF all_lines_lt9 this, of al' nd'] branch(4)
    have p2: "progress al' s s'" by simp
    have e2: "extends (d_board s) (d_board s')" using progress_extends [OF branch(3) p2] by simp
    from extends_trans [OF e1 e2] len branch(8) show ?thesis by simp
  next
    case (again al nd s al' nd' s')
    have len: "81 \<le> length b" using figurebits_Inr(1) [OF again(1)] .
    have p1: "progress al (dinit r b) s"
      using naked_progress [OF up, of "dinit r b" al] len again(2) by simp
    have e1: "extends b (d_board s)" using progress_extends [OF again(1) p1] by simp
    have "81 \<le> length (d_board s)" using figurebits_Inr(1) [OF again(3)] .
    from hidden_progress [OF all_lines_lt9 this, of al' nd'] again(4)
    have p2: "progress al' s s'" by simp
    have e2: "extends (d_board s) (d_board s')" using progress_extends [OF again(3) p2] by simp
    have e: "extends b (d_board s')" using extends_trans [OF e1 e2] .
    have "d_board s' \<noteq> b"
    proof (cases "d_stuck s")
      case True
      then have "d_board s = b" using progress_stuck [OF p1] by simp
      moreover have "d_board s' \<noteq> d_board s"
        using progress_changed [OF again(3) p2 refl True again(5)] .
      ultimately show ?thesis by simp
    next
      case False
      have "d_board s \<noteq> b" using progress_changed [OF again(1) p1 _ _ False] by simp
      then have "empties (d_board s) < empties b" using extends_empties_less [OF e1] by blast
      moreover have "empties (d_board s') \<le> empties (d_board s)" using extends_empties [OF e2] .
      ultimately show ?thesis by auto
    qed
    with e len again(6) show ?thesis by simp
  qed
  then show "extends b (iter_board res)" and "81 \<le> length b"
    and "\<And>b' r'. res = Repeat b' r' \<Longrightarrow> b' \<noteq> b" by blast+
qed

lemma deduce_iter_decreases:
  "deduce_iter r b = Inr (Repeat b' r') \<Longrightarrow> empties b' < empties b"
  using deduce_iter_extends(1,3) [of r b "Repeat b' r'"] extends_empties_less [of b b'] by auto

termination deduce
  by (relation "measure (\<lambda>(r, b). empties b)") (auto dest: deduce_iter_decreases)

declare deduce.simps [simp del]

section \<open>Results of deduce\<close>

text \<open>The positions named by the branch set held in a state.\<close>

definition guess_pos :: "dstate \<Rightarrow> nat set" where
  "guess_pos s = (case d_guess s of None \<Rightarrow> {} | Some g \<Rightarrow> fst ` set g)"

lemma pickbetter_cases:
  "pickbetter r b c t = ((g, c'), r') \<Longrightarrow> g = t \<or> b = Some g"
  by (auto simp: pickbetter_def Let_def split: option.splits if_splits prod.splits)

lemma offer_guess: "d_guess (offer t s) = Some t \<or> (d_guess (offer t s) = d_guess s \<and> d_guess s \<noteq> None)"
proof -
  obtain g c r where p: "pickbetter (d_rnd s) (d_guess s) (d_count s) t = ((g, c), r)"
    by (metis surj_pair)
  then have "d_guess (offer t s) = Some g" by (simp add: offer_def)
  with pickbetter_cases [OF p] show ?thesis by auto
qed

lemma guess_pos_offer: "guess_pos (offer t s) \<subseteq> guess_pos s \<union> fst ` set t"
  using offer_guess [of t s] by (auto simp: guess_pos_def split: option.splits)

lemma guess_pos_assign [simp]:
  "guess_pos (s\<lparr>d_board := b, d_stuck := f\<rparr>) = guess_pos s"
  by (simp add: guess_pos_def)

lemma naked_guess_pos:
  "set ps \<subseteq> {..<81} \<Longrightarrow> guess_pos (flow_state (naked al ps s)) \<subseteq> guess_pos s \<union> writable al"
proof (induction ps arbitrary: s)
  case Nil
  then show ?case by simp
next
  case (Cons pos ps)
  have ps: "set ps \<subseteq> {..<81}" and pos: "pos < 81" using Cons.prems by auto
  let ?nums = "listbits (al ! pos)"
  let ?s1 = "offer (map (\<lambda>n. (pos, n)) ?nums) s"
  show ?case
  proof (cases "d_board s ! pos = None \<and> length ?nums \<noteq> 0 \<and> length ?nums \<noteq> 1 \<and> d_stuck s")
    case True
    then have e: "naked al (pos # ps) s = naked al ps ?s1" by simp
    have "?nums \<noteq> []" using True by auto
    then have "pos \<in> writable al" using pos listbits_nonempty by (simp add: writable_def)
    then have "guess_pos ?s1 \<subseteq> guess_pos s \<union> writable al"
      using guess_pos_offer [of "map (\<lambda>n. (pos, n)) ?nums" s] by auto
    with Cons.IH [OF ps, of ?s1] show ?thesis unfolding e by blast
  next
    case False
    then show ?thesis
      using Cons.IH [OF ps, of s]
        Cons.IH [OF ps, of "s\<lparr>d_board := (d_board s)[pos := Some (?nums ! 0)], d_stuck := False\<rparr>"]
      by (cases "d_board s ! pos = None"; cases "length ?nums = 0"; cases "length ?nums = 1") auto
  qed
qed

lemma hidden_digits_guess_pos:
  "x < 9 \<Longrightarrow> guess_pos (flow_state (hidden_digits al x axis ns s)) \<subseteq> guess_pos s \<union> writable al"
proof (induction ns arbitrary: s)
  case Nil
  then show ?case by simp
next
  case (Cons n ns)
  let ?spots = "spots_of al x axis n"
  let ?s1 = "offer (map (\<lambda>pos. (pos, n)) ?spots) s"
  show ?case
  proof (cases "length ?spots \<noteq> 0 \<and> length ?spots \<noteq> 1 \<and> d_stuck s")
    case True
    then have e: "hidden_digits al x axis (n # ns) s = hidden_digits al x axis ns ?s1" by simp
    have "fst ` set (map (\<lambda>pos. (pos, n)) ?spots) \<subseteq> writable al"
      using spots_of_writable [OF Cons.prems, of al axis n] by auto
    then have "guess_pos ?s1 \<subseteq> guess_pos s \<union> writable al"
      using guess_pos_offer [of "map (\<lambda>pos. (pos, n)) ?spots" s] by blast
    with Cons.IH [OF Cons.prems, of ?s1] show ?thesis unfolding e by blast
  next
    case False
    then show ?thesis
      using Cons.IH [OF Cons.prems, of s]
        Cons.IH [OF Cons.prems, of "s\<lparr>d_board := (d_board s)[?spots ! 0 := Some n], d_stuck := False\<rparr>"]
      by (cases "length ?spots = 0"; cases "length ?spots = 1") simp_all
  qed
qed

lemma hidden_guess_pos:
  "\<forall>l \<in> set ls. snd l < 9 \<Longrightarrow>
   guess_pos (flow_state (hidden al nd ls s)) \<subseteq> guess_pos s \<union> writable al"
proof (induction ls arbitrary: s)
  case Nil
  then show ?case by simp
next
  case (Cons l ls)
  obtain axis x where l: "l = (axis, x)" by (cases l)
  have x: "x < 9" using Cons.prems l by simp
  let ?f = "hidden_digits al x axis (listbits (nd ! (axis * 9 + x))) s"
  have 1: "guess_pos (flow_state ?f) \<subseteq> guess_pos s \<union> writable al"
    using hidden_digits_guess_pos [OF x] .
  show ?case
  proof (cases ?f)
    case (Fail s')
    then show ?thesis using 1 by (simp add: l)
  next
    case (Continue s')
    then have e: "hidden al nd (l # ls) s = hidden al nd ls s'" by (simp add: l)
    from Cons.IH [of s'] Cons.prems have "guess_pos (flow_state (hidden al nd ls s')) \<subseteq> guess_pos s' \<union> writable al"
      by simp
    with 1 Continue show ?thesis unfolding e by auto
  qed
qed

lemma randint0_le: "fst (randint0 r c) \<le> c"
  by (simp add: randint0_def split: prod.splits)

lemma mset_shuffle_from:
  "i < length xs \<Longrightarrow> mset (fst (shuffle_from i r xs)) = mset xs"
proof (induction i arbitrary: r xs)
  case 0
  then show ?case by simp
next
  case (Suc i)
  obtain j r' where j: "randint0 r (Suc i) = (j, r')" by (metis surj_pair)
  then have jl: "j \<le> Suc i" using randint0_le [of r "Suc i"] by simp
  let ?ys = "xs[Suc i := xs ! j, j := xs ! Suc i]"
  have "mset ?ys = mset xs" using Suc.prems jl by (intro mset_swap) auto
  moreover have "mset (fst (shuffle_from i r' ?ys)) = mset ?ys" using Suc.prems by (intro Suc.IH) simp
  ultimately show ?case using j by simp
qed

lemma mset_shuffle: "mset (fst (shuffle r xs)) = mset xs"
proof (cases xs)
  case Nil
  then show ?thesis by (simp add: shuffle_def)
next
  case (Cons a list)
  then show ?thesis unfolding shuffle_def by (intro mset_shuffle_from) simp
qed

lemma set_shuffle: "set (fst (shuffle r xs)) = set xs"
  using mset_shuffle [of r xs] by (metis set_mset_mset)

lemma length_shuffle: "length (fst (shuffle r xs)) = length xs"
  using mset_shuffle [of r xs] by (metis size_mset)

lemma deduce_iter_ok: 
  assumes "81 \<le> length b"
  shows "\<exists>res. deduce_iter r b = Inr res"
proof -
  obtain al nd where fig: "figurebits b = Inr (al, nd)" using figurebits_ok [OF assms] by blast
  have up: "set [0..<81] \<subseteq> {..<81}" by auto
  have np: "progress al (dinit r b) (flow_state (naked al [0..<81] (dinit r b)))"
    using naked_progress [OF up, of "dinit r b" al] assms by simp
  show ?thesis
  proof (cases "naked al [0..<81] (dinit r b)")
    case (Fail s)
    then show ?thesis using fig by (simp add: deduce_iter_def dinit_def)
  next
    case (Continue s)
    have "81 \<le> length (d_board s)" using progress_length [OF np] Continue assms by simp
    then obtain al' nd' where "figurebits (d_board s) = Inr (al', nd')"
      using figurebits_ok by blast
    then show ?thesis using fig Continue
      by (auto simp: deduce_iter_def dinit_def split: flow.splits option.splits prod.splits)
  qed
qed

lemma deduce_iter_Inl: "deduce_iter r b = Inl e \<Longrightarrow> length b < 81"
  using deduce_iter_ok [of b r] by (cases "81 \<le> length b") auto

lemma deduce_final:
  "deduce r b = Inr (g, b', r') \<Longrightarrow>
   \<exists>r0 b0. extends b b0 \<and> deduce_iter r0 b0 = Inr (Returns g b' r')"
proof (induction r b rule: deduce.induct)
  case (1 r board)
  show ?case
  proof (cases "deduce_iter r board")
    case (Inl e)
    then show ?thesis using "1.prems" by (subst (asm) deduce.simps) simp
  next
    case (Inr res)
    show ?thesis
    proof (cases res)
      case (Returns g1 b1 r1)
      then have "g1 = g \<and> b1 = b' \<and> r1 = r'"
        using "1.prems" Inr by (subst (asm) deduce.simps) simp
      then show ?thesis using Inr Returns extends_refl by blast
    next
      case (Repeat b1 r1)
      then have "deduce r1 b1 = Inr (g, b', r')"
        using "1.prems" Inr by (subst (asm) deduce.simps) simp
      from "1.IH" [OF Inr Repeat this] obtain r0 b0 where
        "extends b1 b0" "deduce_iter r0 b0 = Inr (Returns g b' r')" by blast
      moreover have "extends board b1" using deduce_iter_extends(1) [OF Inr] Repeat by simp
      ultimately show ?thesis using extends_trans by blast
    qed
  qed
qed

lemma deduce_ok: "81 \<le> length b \<Longrightarrow> \<exists>g b' r'. deduce r b = Inr (g, b', r')"
proof (induction r b rule: deduce.induct)
  case (1 r board)
  obtain res where res: "deduce_iter r board = Inr res" using deduce_iter_ok [OF "1.prems"] by blast
  show ?case
  proof (cases res)
    case (Returns g1 b1 r1)
    then show ?thesis using res by (subst deduce.simps) simp
  next
    case (Repeat b1 r1)
    have "extends board b1" using deduce_iter_extends(1) [OF res] Repeat by simp
    then have "81 \<le> length b1" using "1.prems" by (simp add: extends_length)
    from "1.IH" [OF res Repeat this] show ?thesis using res Repeat by (subst deduce.simps) simp
  qed
qed

lemma deduce_Inl: "deduce r b = Inl e \<Longrightarrow> length b < 81"
  using deduce_ok [of b r] by (cases "81 \<le> length b") auto

lemma deduce_extends:
  assumes "deduce r b = Inr (g, b', r')"
  shows "extends b b'" and "81 \<le> length b"
proof -
  obtain r0 b0 where f: "extends b b0" "deduce_iter r0 b0 = Inr (Returns g b' r')"
    using deduce_final [OF assms] by blast
  from deduce_iter_extends(1) [OF f(2)] have "extends b0 b'" by simp
  with f(1) show "extends b b'" using extends_trans by blast
  have "81 \<le> length b0" using deduce_iter_extends(2) [OF f(2)] .
  then show "81 \<le> length b" using f(1) by (simp add: extends_length)
qed

lemma deduce_iter_guess:
  assumes "deduce_iter r b = Inr (Returns (Some g) b' r')" and "(p, n) \<in> set g"
  shows "p < 81 \<and> b' ! p = None"
  using assms(1)
proof (cases rule: deduce_iter_cases)
  case (branch al nd s al' nd' s' g0 g1 r1)
  have up: "set [0..<81] \<subseteq> {..<81}" by auto
  have len: "81 \<le> length b" using figurebits_Inr(1) [OF branch(1)] .
  have p1: "progress al (dinit r b) s"
    using naked_progress [OF up, of "dinit r b" al] len branch(2) by simp
  have "81 \<le> length (d_board s)" using figurebits_Inr(1) [OF branch(3)] .
  from hidden_progress [OF all_lines_lt9 this, of al' nd'] branch(4)
  have p2: "progress al' s s'" by simp
  have s: "d_stuck s" "d_board s' = d_board s" using progress_stuck [OF p2 branch(5)] by auto
  then have b: "d_board s = b" using progress_stuck [OF p1] by simp
  then have al': "al' = al" using branch(1,3) by simp
  have "guess_pos s \<subseteq> writable al"
    using naked_guess_pos [OF up, of al "dinit r b"] branch(2) by (simp add: guess_pos_def)
  moreover have "guess_pos s' \<subseteq> guess_pos s \<union> writable al"
    using hidden_guess_pos [OF all_lines_lt9, of al nd' s] branch(4) al' by simp
  ultimately have "guess_pos s' \<subseteq> writable al" by blast
  moreover have "set g = set g0" using set_shuffle [of "d_rnd s'" g0] branch(7,8) by simp
  ultimately have "p \<in> writable al" using assms(2) branch(6) by (force simp: guess_pos_def)
  then show ?thesis using figurebits_writable [OF branch(1)] s b branch(8) by simp
qed (use assms(2) in auto)

lemma deduce_guess:
  assumes "deduce r b = Inr (Some g, b', r')" and "(p, n) \<in> set g"
  shows "p < 81 \<and> b' ! p = None"
  using deduce_final [OF assms(1)] deduce_iter_guess assms(2) by blast

section \<open>SearchEngine\<close>

text \<open>
  A frame is the tuple \<^verbatim>\<open>(guesses, c, board)\<close>. The stack \<^verbatim>\<open>remembered\<close> is a list whose
  head is the top of the stack: \<^verbatim>\<open>pop()\<close> takes the head, \<^verbatim>\<open>append\<close> conses (the Python
  list holds the same frames in the reverse order).
\<close>

type_synonym frame = "guess \<times> nat \<times> board"

text \<open>
  \<^verbatim>\<open>workspace[pos] = n\<close> raises \<^verbatim>\<open>IndexError\<close> when pos is beyond the board, and
  \<^verbatim>\<open>deduce\<close> raises it on a board of fewer than 81 cells.
\<close>

function solvenext :: "rnd \<Rightarrow> frame list \<Rightarrow> error + (frame list \<times> board option \<times> rnd)" where
  "solvenext r [] = Inr ([], None, r)"
| "solvenext r ((guesses, c, board) # remembered) =
     (if c \<ge> length guesses then solvenext r remembered
      else if fst (guesses ! c) \<ge> length board then Inl IndexError
      else (case deduce r (board[fst (guesses ! c) := Some (snd (guesses ! c))]) of
              Inl e \<Rightarrow> Inl e
            | Inr (None, workspace, r') \<Rightarrow>
                Inr ((guesses, c + 1, board) # remembered, Some workspace, r')
            | Inr (Some guesses', workspace, r') \<Rightarrow>
                solvenext r' ((guesses', 0, workspace) # (guesses, c + 1, board) # remembered)))"
  by pat_completeness auto

text \<open>
  The weight of a frame for the termination argument: the empty cells of its board (one
  more when some remaining option does not name an empty cell), then the options left.
\<close>

definition frame_ok :: "frame \<Rightarrow> bool" where
  "frame_ok f = (case f of (g, c, b) \<Rightarrow>
     \<forall>(p, n) \<in> set (drop c g). p < 81 \<and> p < length b \<and> b ! p = None)"

definition fw :: "frame \<Rightarrow> nat \<times> nat" where
  "fw f = (case f of (g, c, b) \<Rightarrow> (empties b + (if frame_ok f then 0 else 1), length g - c))"

definition fw_less :: "((nat \<times> nat) \<times> (nat \<times> nat)) set" where
  "fw_less = less_than <*lex*> less_than"

lemma wf_fw_less: "wf fw_less"
  unfolding fw_less_def by (intro wf_lex_prod wf_less_than)

lemma frame_ok_advance: "frame_ok (g, c, b) \<Longrightarrow> frame_ok (g, Suc c, b)"
  unfolding frame_ok_def using set_drop_subset_set_drop [of c "Suc c" g] by auto

lemma fw_advance:
  assumes "c < length g"
  shows "(fw (g, Suc c, b), fw (g, c, b)) \<in> fw_less"
proof -
  have "length g - Suc c < length g - c" using assms by simp
  moreover have "(if frame_ok (g, Suc c, b) then 0 else 1) \<le> (if frame_ok (g, c, b) then 0 else (1::nat))"
    using frame_ok_advance [of g c b] by simp
  ultimately show ?thesis by (auto simp: fw_def fw_less_def)
qed

lemma update_keeps_empty: "b[p := Some n] ! q = None \<Longrightarrow> b ! q = None"
  by (cases "p = q"; cases "p < length b") (simp_all add: list_update_beyond)

lemma empties_update: "empties (b[p := Some n]) \<le> empties b"
  by (rule empties_mono) (auto dest: update_keeps_empty)

lemma empties_update_less:
  assumes "p < 81" "p < length b" "b ! p = None"
  shows "empties (b[p := Some n]) < empties b"
  using assms by (intro empties_less [where q = p]) (auto dest: update_keeps_empty)

lemma fw_child:
  assumes "c < length g" and "fst (g ! c) < length b"
    and "deduce r (b[fst (g ! c) := Some (snd (g ! c))]) = Inr (Some g', w, r')"
  shows "(fw (g', c', w), fw (g, c, b)) \<in> fw_less"
proof -
  let ?b1 = "b[fst (g ! c) := Some (snd (g ! c))]"
  have "81 \<le> length w" using deduce_extends [OF assms(3)] by (simp add: extends_length)
  then have ok: "frame_ok (g', c', w)"
    unfolding frame_ok_def using deduce_guess [OF assms(3)]
    by (fastforce dest!: in_set_dropD)
  have le: "empties w \<le> empties ?b1" using deduce_extends(1) [OF assms(3)] by (rule extends_empties)
  have "empties ?b1 < empties b + (if frame_ok (g, c, b) then 0 else 1)"
  proof (cases "frame_ok (g, c, b)")
    case True
    have "g ! c \<in> set (drop c g)" using assms(1) by (metis Cons_nth_drop_Suc list.set_intros(1))
    then have "fst (g ! c) < 81 \<and> b ! fst (g ! c) = None"
      using True unfolding frame_ok_def by (cases "g ! c") auto
    then show ?thesis using True assms(2) empties_update_less by simp
  next
    case False
    then show ?thesis using empties_update [of b] by (simp add: less_Suc_eq_le)
  qed
  with le ok show ?thesis by (auto simp: fw_def fw_less_def)
qed

lemma mult_replace:
  assumes "\<forall>k \<in># K. (k, a) \<in> r"
  shows "(M + K, add_mset a M) \<in> mult r"
  using one_step_implies_mult [of "{#a#}" K r M] assms by simp

termination solvenext
proof (relation "inv_image (mult fw_less) (\<lambda>(r, st). mset (map fw st))", goal_cases)
  case 1
  show ?case by (intro wf_inv_image wf_mult wf_fw_less)
next
  case (2 r guesses c board remembered)
  show ?case using mult_replace [of "{#}" _ fw_less "mset (map fw remembered)"] by simp
next
  case (3 r guesses c board remembered x2 x1 x2a x2b x1a x2c)
  then have d: "deduce r (board[fst (guesses ! c) := Some (snd (guesses ! c))]) = Inr (Some x2b, x1a, x2c)"
    and c: "c < length guesses" and p: "fst (guesses ! c) < length board" by auto
  have "(fw (x2b, 0, x1a), fw (guesses, c, board)) \<in> fw_less" using fw_child [OF c p d] .
  moreover have "(fw (guesses, Suc c, board), fw (guesses, c, board)) \<in> fw_less"
    using fw_advance [OF c] .
  ultimately show ?case
    using mult_replace [of "{#fw (x2b, 0, x1a), fw (guesses, Suc c, board)#}" "fw (guesses, c, board)"
        fw_less "mset (map fw remembered)"]
    by (simp add: add_mset_commute)
qed

text \<open>\<^verbatim>\<open>board = list(original)\<close> is a copy: the model computes with the value.\<close>

definition solveboard :: "rnd \<Rightarrow> board \<Rightarrow> error + (frame list \<times> board option \<times> rnd)" where
  "solveboard r original =
     (case deduce r original of
        Inl e \<Rightarrow> Inl e
      | Inr (None, board, r') \<Rightarrow> Inr ([], Some board, r')
      | Inr (Some guesses, board, r') \<Rightarrow> solvenext r' [(guesses, 0, board)])"

section \<open>DifficultyRater\<close>

fun boardmatches_from :: "nat list \<Rightarrow> board \<Rightarrow> board \<Rightarrow> error + bool" where
  "boardmatches_from [] b1 b2 = Inr True"
| "boardmatches_from (i # is) b1 b2 =
     (if i \<ge> length b1 \<or> i \<ge> length b2 then Inl IndexError
      else if b1 ! i \<noteq> b2 ! i then Inr False
      else boardmatches_from is b1 b2)"

definition boardmatches :: "board \<Rightarrow> board \<Rightarrow> error + bool" where
  "boardmatches b1 b2 = boardmatches_from [0..<81] b1 b2"

text \<open>
  \<^verbatim>\<open>checkpuzzle(puzzle, board = None)\<close>; \<^verbatim>\<open>difficulty\<close> is the length of the stack
  returned with the first answer, read before \<^verbatim>\<open>solvenext\<close> runs on again.
\<close>

definition checkpuzzle :: "rnd \<Rightarrow> board \<Rightarrow> board option \<Rightarrow> error + (int \<times> rnd)" where
  "checkpuzzle r puzzle board =
     (case solveboard r puzzle of
        Inl e \<Rightarrow> Inl e
      | Inr (state, answer, r1) \<Rightarrow>
          (case answer of
             None \<Rightarrow> Inr (- 1, r1)
           | Some a \<Rightarrow>
               (case (case board of None \<Rightarrow> Inr True | Some b \<Rightarrow> boardmatches b a) of
                  Inl e \<Rightarrow> Inl e
                | Inr False \<Rightarrow> Inr (- 1, r1)
                | Inr True \<Rightarrow>
                    (case solvenext r1 state of
                       Inl e \<Rightarrow> Inl e
                     | Inr (state', second, r2) \<Rightarrow>
                         if second \<noteq> None then Inr (- 1, r2)
                         else Inr (int (length state), r2)))))"

section \<open>PuzzleGenerator\<close>

type_synonym entry = "nat \<times> cell"

fun place :: "entry list \<Rightarrow> board \<Rightarrow> error + board" where
  "place [] board = Inr board"
| "place ((pos, n) # es) board =
     (if pos \<ge> length board then Inl IndexError else place es (board[pos := n]))"

definition boardforentries :: "entry list \<Rightarrow> error + board" where
  "boardforentries entries = place entries (replicate 81 None)"

text \<open>The first loop of \<^verbatim>\<open>makepuzzle\<close>, over the remaining positions of \<^verbatim>\<open>order\<close>.\<close>

fun reveal :: "board \<Rightarrow> nat list \<Rightarrow> entry list \<Rightarrow> board \<Rightarrow> rnd \<Rightarrow>
    error + (entry list \<times> board \<times> rnd)" where
  "reveal board [] puzzle deduced r = Inr (puzzle, deduced, r)"
| "reveal board (pos # order) puzzle deduced r =
     (if pos \<ge> length deduced then Inl IndexError
      else if deduced ! pos = None then
        (if pos \<ge> length board then Inl IndexError
         else (case deduce r (deduced[pos := board ! pos]) of
                 Inl e \<Rightarrow> Inl e
               | Inr (g, deduced', r') \<Rightarrow>
                   reveal board order (puzzle @ [(pos, board ! pos)]) deduced' r'))
      else reveal board order puzzle deduced r)"

text \<open>
  The second loop, over the remaining indices of \<^verbatim>\<open>range(len(puzzle) - 1, -1, -1)\<close>:
  \<^verbatim>\<open>del puzzle[i]\<close>, and \<^verbatim>\<open>append\<close> of the entry when the rating is -1.
\<close>

fun prune :: "board \<Rightarrow> nat list \<Rightarrow> entry list \<Rightarrow> rnd \<Rightarrow> error + (entry list \<times> rnd)" where
  "prune board [] puzzle r = Inr (puzzle, r)"
| "prune board (i # is) puzzle r =
     (if i \<ge> length puzzle then Inl IndexError
      else (case boardforentries (take i puzzle @ drop (Suc i) puzzle) of
              Inl e \<Rightarrow> Inl e
            | Inr pb \<Rightarrow>
                (case checkpuzzle r pb (Some board) of
                   Inl e \<Rightarrow> Inl e
                 | Inr (rating, r') \<Rightarrow>
                     if rating = - 1
                     then prune board is (take i puzzle @ drop (Suc i) puzzle @ [puzzle ! i]) r'
                     else prune board is (take i puzzle @ drop (Suc i) puzzle) r')))"

text \<open>
  \<^verbatim>\<open>random.sample(range(81), 81)\<close> is the 81 positions in a random order; the model draws
  that order by the swaps of \<open>shuffle\<close>.
\<close>

definition makepuzzle :: "rnd \<Rightarrow> board \<Rightarrow> error + (board \<times> rnd)" where
  "makepuzzle r board =
     (case shuffle r [0..<81] of (order, r1) \<Rightarrow>
      case reveal board order [] (replicate 81 None) r1 of
        Inl e \<Rightarrow> Inl e
      | Inr (puzzle, deduced, r2) \<Rightarrow>
          (case shuffle r2 puzzle of (puzzle', r3) \<Rightarrow>
           case prune board (rev [0..<length puzzle']) puzzle' r3 of
             Inl e \<Rightarrow> Inl e
           | Inr (puzzle'', r4) \<Rightarrow>
               (case boardforentries puzzle'' of
                  Inl e \<Rightarrow> Inl e
                | Inr p \<Rightarrow> Inr (p, r4))))"

section \<open>Board text\<close>

text \<open>
  A text is a Python 3 \<^verbatim>\<open>str\<close> whose code points are below 256, one \<^typ>\<open>char\<close> each.
  \<^verbatim>\<open>str.split()\<close> splits at runs of whitespace; these are the whitespace code points
  below 256.
\<close>

definition isspace :: "char \<Rightarrow> bool" where
  "isspace c \<longleftrightarrow> (of_char c :: nat) \<in> set [9, 10, 11, 12, 13, 28, 29, 30, 31, 32, 133, 160]"

fun split_ws :: "string \<Rightarrow> string \<Rightarrow> string list" where
  "split_ws w [] = (if w = [] then [] else [w])"
| "split_ws w (c # cs) =
     (if isspace c then (if w = [] then split_ws [] cs else w # split_ws [] cs)
      else split_ws (w @ [c]) cs)"

definition split :: "string \<Rightarrow> string list" where
  "split s = split_ws [] s"

datatype parse_flow = Done board | More board

text \<open>The loop \<^verbatim>\<open>for x in w\<close>; \<^verbatim>\<open>int(x) - 1\<close> of a digit character is its code minus 49.\<close>

fun parse_chars :: "string \<Rightarrow> board \<Rightarrow> parse_flow" where
  "parse_chars [] result = More result"
| "parse_chars (x # xs) result =
     (if x \<in> set ''|-=+'' then parse_chars xs result
      else if length (result @ [if x \<in> set ''123456789'' then Some (of_char x - 49) else None]) = 81
      then Done (result @ [if x \<in> set ''123456789'' then Some (of_char x - 49) else None])
      else parse_chars xs (result @ [if x \<in> set ''123456789'' then Some (of_char x - 49) else None]))"

text \<open>The loop \<^verbatim>\<open>for w in str.split()\<close>; falling off its end returns \<^verbatim>\<open>None\<close>.\<close>

fun parse_words :: "string list \<Rightarrow> board \<Rightarrow> board option" where
  "parse_words [] result = None"
| "parse_words (w # ws) result =
     (case parse_chars w result of
        Done b \<Rightarrow> Some b
      | More result' \<Rightarrow> parse_words ws result')"

definition parseboard :: "string \<Rightarrow> board option" where
  "parseboard s = parse_words (split s) []"

section \<open>Axis arithmetic\<close>

text \<open>
  The file runs under \<^verbatim>\<open>#!/usr/bin/python3\<close>, where \<^verbatim>\<open>/\<close> on integers is true division and
  yields a float. The model takes the exact quotient in \<^typ>\<open>real\<close>; \<^verbatim>\<open>%\<close> on a float
  is \<open>x - 3 * floor (x / 3)\<close>.
\<close>

definition axisfor :: "nat \<Rightarrow> nat \<Rightarrow> real" where
  "axisfor pos axis =
     (if axis = 0 then real pos / 9
      else if axis = 1 then real (pos mod 9)
      else (real pos / 27) * 3 + (real pos / 3 - 3 * real_of_int \<lfloor>(real pos / 3) / 3\<rfloor>))"

text \<open>The same function read with floor division throughout (\<^verbatim>\<open>//\<close>).\<close>

definition axisfor_floor :: "nat \<Rightarrow> nat \<Rightarrow> nat" where
  "axisfor_floor pos axis =
     (if axis = 0 then pos div 9
      else if axis = 1 then pos mod 9
      else (pos div 27) * 3 + (pos div 3) mod 3)"

section \<open>What the outcomes of deduce mean\<close>

lemma offer_guess_Some: "d_guess (offer t s) \<noteq> None"
  using offer_guess [of t s] by auto

lemma naked_keeps_guess:
  "d_guess s \<noteq> None \<Longrightarrow> d_guess (flow_state (naked al ps s)) \<noteq> None"
proof (induction ps arbitrary: s)
  case Nil
  then show ?case by simp
next
  case (Cons pos ps)
  let ?nums = "listbits (al ! pos)"
  show ?case
    using Cons.prems Cons.IH [of s] Cons.IH [of "offer (map (\<lambda>n. (pos, n)) ?nums) s"]
      Cons.IH [of "s\<lparr>d_board := (d_board s)[pos := Some (?nums ! 0)], d_stuck := False\<rparr>"]
      offer_guess_Some [of "map (\<lambda>n. (pos, n)) ?nums" s]
    by (cases "d_board s ! pos = None"; cases "length ?nums = 0"; cases "length ?nums = 1";
        cases "d_stuck s") auto
qed

lemma hidden_digits_keeps_guess:
  "d_guess s \<noteq> None \<Longrightarrow> d_guess (flow_state (hidden_digits al x axis ns s)) \<noteq> None"
proof (induction ns arbitrary: s)
  case Nil
  then show ?case by simp
next
  case (Cons n ns)
  let ?spots = "spots_of al x axis n"
  show ?case
    using Cons.prems Cons.IH [of s] Cons.IH [of "offer (map (\<lambda>pos. (pos, n)) ?spots) s"]
      Cons.IH [of "s\<lparr>d_board := (d_board s)[?spots ! 0 := Some n], d_stuck := False\<rparr>"]
      offer_guess_Some [of "map (\<lambda>pos. (pos, n)) ?spots" s]
    by (cases "length ?spots = 0"; cases "length ?spots = 1"; cases "d_stuck s") auto
qed

lemma hidden_keeps_guess:
  "d_guess s \<noteq> None \<Longrightarrow> d_guess (flow_state (hidden al nd ls s)) \<noteq> None"
proof (induction ls arbitrary: s)
  case Nil
  then show ?case by simp
next
  case (Cons l ls)
  obtain axis x where l: "l = (axis, x)" by (cases l)
  let ?f = "hidden_digits al x axis (listbits (nd ! (axis * 9 + x))) s"
  have 1: "d_guess (flow_state ?f) \<noteq> None" using hidden_digits_keeps_guess [OF Cons.prems] .
  show ?case
  proof (cases ?f)
    case (Fail s')
    then show ?thesis using 1 by (simp add: l)
  next
    case (Continue s')
    then show ?thesis using 1 Cons.IH [of s'] by (simp add: l)
  qed
qed

text \<open>A pass over the cells that ends stuck and without a branch set met no empty cell.\<close>

lemma naked_stuck_no_guess:
  assumes "naked al ps s = Continue s'" and "d_stuck s'" and "d_guess s' = None"
    and "set ps \<subseteq> {..<81}" and "81 \<le> length (d_board s)"
  shows "\<forall>p \<in> set ps. d_board s ! p \<noteq> None"
  using assms
proof (induction ps arbitrary: s)
  case Nil
  then show ?case by simp
next
  case (Cons pos ps)
  have ps: "set ps \<subseteq> {..<81}" using Cons.prems by auto
  let ?nums = "listbits (al ! pos)"
  let ?s1 = "s\<lparr>d_board := (d_board s)[pos := Some (?nums ! 0)], d_stuck := False\<rparr>"
  let ?s2 = "offer (map (\<lambda>n. (pos, n)) ?nums) s"
  have stuck: "d_stuck s"
    using naked_progress [OF Cons.prems(4,5), of al] Cons.prems(1,2) progress_stuck by fastforce
  show ?case
  proof (cases "d_board s ! pos = None")
    case False
    then have "naked al ps s = Continue s'" using Cons.prems(1) by auto
    from Cons.IH [OF this Cons.prems(2,3) ps Cons.prems(5)] False show ?thesis by simp
  next
    case True
    have n0: "length ?nums \<noteq> 0" using True Cons.prems(1) by auto
    have n1: "length ?nums \<noteq> 1"
    proof
      assume "length ?nums = 1"
      then have e: "naked al ps ?s1 = Continue s'" using True Cons.prems(1) by simp
      have "progress al ?s1 (flow_state (naked al ps ?s1))"
        using naked_progress [OF ps, of ?s1 al] Cons.prems(5) by simp
      then have "d_stuck ?s1" using e Cons.prems(2) progress_stuck by fastforce
      then show False by simp
    qed
    have e: "naked al ps ?s2 = Continue s'" using True n0 n1 stuck Cons.prems(1) by simp
    have "d_guess ?s2 \<noteq> None" by (rule offer_guess_Some)
    from naked_keeps_guess [OF this, of al ps] e Cons.prems(3) show ?thesis by simp
  qed
qed

lemma naked_all_filled:
  "\<forall>p \<in> set ps. d_board s ! p \<noteq> None \<Longrightarrow> naked al ps s = Continue s"
  by (induction ps) auto



lemma hidden_digits_Continue:
  "hidden_digits al x axis ns s = Continue s' \<Longrightarrow> \<forall>n \<in> set ns. spots_of al x axis n \<noteq> []"
proof (induction ns arbitrary: s)
  case Nil
  then show ?case by simp
next
  case (Cons n ns)
  let ?spots = "spots_of al x axis n"
  show ?case
    using Cons.prems Cons.IH [of s] Cons.IH [of "offer (map (\<lambda>pos. (pos, n)) ?spots) s"]
      Cons.IH [of "s\<lparr>d_board := (d_board s)[?spots ! 0 := Some n], d_stuck := False\<rparr>"]
    by (cases "length ?spots = 0"; cases "length ?spots = 1"; cases "d_stuck s") auto
qed


lemma hidden_Continue:
  "hidden al nd ls s = Continue s' \<Longrightarrow>
   \<forall>l \<in> set ls. \<forall>n \<in> set (listbits (nd ! (fst l * 9 + snd l))). spots_of al (snd l) (fst l) n \<noteq> []"
proof (induction ls arbitrary: s)
  case Nil
  then show ?case by simp
next
  case (Cons l ls)
  obtain axis x where l: "l = (axis, x)" by (cases l)
  let ?f = "hidden_digits al x axis (listbits (nd ! (axis * 9 + x))) s"
  show ?case
  proof (cases ?f)
    case (Fail s1)
    then show ?thesis using Cons.prems by (simp add: l)
  next
    case (Continue s1)
    then show ?thesis using Cons.prems Cons.IH [of s1] hidden_digits_Continue [OF Continue]
      by (simp add: l)
  qed
qed

section \<open>Solved boards\<close>

definition line_cells :: "board \<Rightarrow> nat \<times> nat \<Rightarrow> cell list" where
  "line_cells b l = map (\<lambda>y. b ! posfor (snd l) y (fst l)) [0..<9]"

text \<open>
  All 81 cells hold a digit of 0..8, and every row, column and box holds every digit
  exactly once.
\<close>

definition solved :: "board \<Rightarrow> bool" where
  "solved b \<longleftrightarrow>
     (\<forall>p<81. \<exists>d<9. b ! p = Some d) \<and>
     (\<forall>l \<in> set axis_lines. \<forall>d<9. count_list (line_cells b l) (Some d) = 1)"

lemma posfor_row: "posfor x y 0 = x * 9 + y"
  by (simp add: posfor_def)

lemma row_covers: "p < 81 \<Longrightarrow> (0, p div 9) \<in> set axis_lines \<and> p mod 9 < 9 \<and> posfor (p div 9) (p mod 9) 0 = p"
  by (auto simp: set_axis_lines posfor_row)

lemma line_pigeonhole:
  fixes f :: "nat \<Rightarrow> cell"
  assumes "\<forall>d<9. \<exists>y<9. f y = Some d"
  shows "inj_on f {..<9}" and "f ` {..<9} = Some ` {..<9}"
proof -
  have sub: "Some ` {..<9} \<subseteq> f ` {..<(9::nat)}"
  proof
    fix c assume "c \<in> Some ` {..<(9::nat)}"
    then obtain d where "d < 9" "c = Some d" by auto
    with assms obtain y where "y < 9" "f y = c" by metis
    then show "c \<in> f ` {..<9}" by (metis imageI lessThan_iff)
  qed
  have "card (Some ` {..<(9::nat)}) = 9" by (simp add: card_image)
  moreover have "card (f ` {..<(9::nat)}) \<le> 9" using card_image_le [of "{..<9}" f] by simp
  ultimately have c: "card (f ` {..<(9::nat)}) \<le> card (Some ` {..<(9::nat)})" by simp
  show eq: "f ` {..<9} = Some ` {..<9}"
    using card_seteq [OF _ sub c] by simp
  have "card (f ` {..<(9::nat)}) = card {..<(9::nat)}" unfolding eq by (simp add: card_image)
  then show "inj_on f {..<9}" by (intro eq_card_imp_inj_on) simp_all
qed

lemma count_list_distinct: "distinct xs \<Longrightarrow> x \<in> set xs \<Longrightarrow> count_list xs x = 1"
  by (induction xs) auto

lemma upt9_set: "set [0..<9] = {..<9}"
  by auto

lemma mem_line_cells:
  "c \<in> set (line_cells b l) \<longleftrightarrow> (\<exists>y<9. b ! posfor (snd l) y (fst l) = c)"
proof
  assume "c \<in> set (line_cells b l)"
  then show "\<exists>y<9. b ! posfor (snd l) y (fst l) = c" unfolding line_cells_def by auto
next
  assume "\<exists>y<9. b ! posfor (snd l) y (fst l) = c"
  then obtain y where "y < 9" "b ! posfor (snd l) y (fst l) = c" by blast
  then show "c \<in> set (line_cells b l)" unfolding line_cells_def
    by (simp add: image_iff) (metis atLeastLessThan_iff zero_le)
qed

lemma line_complete_count:
  assumes "\<forall>d<9. \<exists>y<9. b ! posfor (snd l) y (fst l) = Some d" and "d < 9"
  shows "count_list (line_cells b l) (Some d) = 1"
proof -
  let ?f = "\<lambda>y. b ! posfor (snd l) y (fst l)"
  have "inj_on ?f {..<9}" using line_pigeonhole(1) [of ?f] assms(1) by simp
  then have "distinct (line_cells b l)" unfolding line_cells_def
    by (simp add: distinct_map atLeast0LessThan)
  moreover have "Some d \<in> set (line_cells b l)"
    using assms unfolding mem_line_cells by blast
  ultimately show ?thesis by (rule count_list_distinct)
qed

lemma lines_complete_solved:
  assumes "\<forall>l \<in> set axis_lines. \<forall>d<9. \<exists>y<9. b ! posfor (snd l) y (fst l) = Some d"
  shows "solved b"
  unfolding solved_def
proof (intro conjI allI impI ballI)
  fix p :: nat assume p: "p < 81"
  let ?f = "\<lambda>y. b ! posfor (p div 9) y 0"
  have "\<forall>d<9. \<exists>y<9. ?f y = Some d" using assms row_covers [OF p] by fastforce
  from line_pigeonhole(2) [OF this] have "?f (p mod 9) \<in> Some ` {..<9}"
    using row_covers [OF p] by blast
  then show "\<exists>d<9. b ! p = Some d" using row_covers [OF p] by auto
next
  fix l d assume "l \<in> set axis_lines" and "(d::nat) < 9"
  then show "count_list (line_cells b l) (Some d) = 1"
    using assms line_complete_count by blast
qed

lemma solved_line:
  assumes "solved b" and "l \<in> set axis_lines" and "d < 9"
  shows "\<exists>y<9. b ! posfor (snd l) y (fst l) = Some d"
proof -
  have "count_list (line_cells b l) (Some d) = 1" using assms by (simp add: solved_def)
  then have "Some d \<in> set (line_cells b l)" by (metis count_notin zero_neq_one)
  then show ?thesis unfolding mem_line_cells .
qed

lemma solved_line_inj:
  assumes "solved b" and "l \<in> set axis_lines" and "y < 9" and "y' < 9"
    and "b ! posfor (snd l) y (fst l) = b ! posfor (snd l) y' (fst l)"
  shows "y = y'"
proof -
  let ?f = "\<lambda>y. b ! posfor (snd l) y (fst l)"
  have "\<forall>d<9. \<exists>y<9. ?f y = Some d" using solved_line [OF assms(1,2)] by blast
  from line_pigeonhole(1) [OF this] assms(3,4,5) show ?thesis by (auto dest: inj_onD)
qed

lemma axis_lines_nth: "l \<in> set axis_lines \<Longrightarrow> axis_lines ! (fst l * 9 + snd l) = l"
  unfolding axis_lines_eq by auto

lemma axis_lines_idx: "l \<in> set axis_lines \<Longrightarrow> fst l * 9 + snd l < length axis_lines"
  unfolding axis_lines_eq by auto

lemma needed_nth:
  assumes "figurebits b = Inr (al, nd)" and "l \<in> set axis_lines"
  shows "nd ! (fst l * 9 + snd l) = axismissing b (snd l) (fst l)"
proof -
  have "nd = map (\<lambda>(axis, x). axismissing b x axis) axis_lines"
    using figurebits_Inr(3) [OF assms(1)] .
  then show ?thesis using axis_lines_nth [OF assms(2)] axis_lines_idx [OF assms(2)]
    by (simp add: case_prod_beta)
qed

lemma allowed_filled:
  assumes "figurebits b = Inr (al, nd)" and "p < length b" and "b ! p \<noteq> None"
  shows "al ! p = 0"
  using figurebits_Inr(4) [OF assms(1,2)] assms(3) by (auto simp: bit_eq_iff)

lemma spots_all_filled:
  assumes "figurebits b = Inr (al, nd)" and "\<forall>p<81. b ! p \<noteq> None" and "x < 9"
  shows "spots_of al x axis n = []"
proof -
  have "al ! posfor x y axis = 0" if "y < 9" for y
    using allowed_filled [OF assms(1), of "posfor x y axis"] posfor_less [OF assms(3) that, of axis]
      assms(2) figurebits_Inr(1) [OF assms(1)] by auto
  then show ?thesis by (auto simp: spots_of_def filter_empty_conv)
qed

section \<open>Where a branch set comes from\<close>

definition naked_offers :: "int list \<Rightarrow> nat list \<Rightarrow> guess set" where
  "naked_offers al ps =
     {map (\<lambda>n. (p, n)) (listbits (al ! p)) | p. p \<in> set ps \<and> 2 \<le> length (listbits (al ! p))}"

definition hidden_offers :: "int list \<Rightarrow> int list \<Rightarrow> (nat \<times> nat) list \<Rightarrow> guess set" where
  "hidden_offers al nd ls =
     {map (\<lambda>p. (p, n)) (spots_of al x axis n) | axis x n.
        (axis, x) \<in> set ls \<and> n \<in> set (listbits (nd ! (axis * 9 + x))) \<and>
        2 \<le> length (spots_of al x axis n)}"

lemma len_ge2: "length xs \<noteq> 0 \<Longrightarrow> length xs \<noteq> 1 \<Longrightarrow> 2 \<le> length xs"
  by arith

lemma offer_from: "d_guess (offer t s) = Some g \<Longrightarrow> g = t \<or> d_guess s = Some g"
  using offer_guess [of t s] by auto

lemma naked_guess_from:
  "d_guess (flow_state (naked al ps s)) = Some g \<Longrightarrow> d_guess s = Some g \<or> g \<in> naked_offers al ps"
proof (induction ps arbitrary: s)
  case Nil
  then show ?case by simp
next
  case (Cons pos ps)
  let ?nums = "listbits (al ! pos)"
  let ?s1 = "s\<lparr>d_board := (d_board s)[pos := Some (?nums ! 0)], d_stuck := False\<rparr>"
  let ?s2 = "offer (map (\<lambda>n. (pos, n)) ?nums) s"
  have mono: "naked_offers al ps \<subseteq> naked_offers al (pos # ps)" by (auto simp: naked_offers_def)
  show ?case
  proof (cases "d_board s ! pos = None \<and> length ?nums \<noteq> 0 \<and> length ?nums \<noteq> 1 \<and> d_stuck s")
    case True
    then have e: "naked al (pos # ps) s = naked al ps ?s2" by simp
    have "2 \<le> length ?nums" using True len_ge2 by blast
    then have "map (\<lambda>n. (pos, n)) ?nums \<in> naked_offers al (pos # ps)"
      unfolding naked_offers_def by (intro CollectI exI [of _ pos]) auto
    then show ?thesis
      using Cons.IH [of ?s2] Cons.prems mono offer_from [of "map (\<lambda>n. (pos, n)) ?nums" s g]
      unfolding e by blast
  next
    case False
    then have "naked al (pos # ps) s = Fail s \<or> naked al (pos # ps) s = naked al ps ?s1
        \<or> naked al (pos # ps) s = naked al ps s" by auto
    then show ?thesis
      using Cons.IH [of s] Cons.IH [of ?s1] Cons.prems mono by auto
  qed
qed

lemma hidden_digits_guess_from:
  "d_guess (flow_state (hidden_digits al x axis ns s)) = Some g \<Longrightarrow>
   d_guess s = Some g \<or>
   (\<exists>n \<in> set ns. g = map (\<lambda>p. (p, n)) (spots_of al x axis n) \<and> 2 \<le> length (spots_of al x axis n))"
proof (induction ns arbitrary: s)
  case Nil
  then show ?case by simp
next
  case (Cons n ns)
  let ?spots = "spots_of al x axis n"
  let ?s1 = "s\<lparr>d_board := (d_board s)[?spots ! 0 := Some n], d_stuck := False\<rparr>"
  let ?s2 = "offer (map (\<lambda>pos. (pos, n)) ?spots) s"
  show ?case
  proof (cases "length ?spots \<noteq> 0 \<and> length ?spots \<noteq> 1 \<and> d_stuck s")
    case True
    then have e: "hidden_digits al x axis (n # ns) s = hidden_digits al x axis ns ?s2" by simp
    have "2 \<le> length ?spots" using True len_ge2 by blast
    then show ?thesis
      using Cons.IH [of ?s2] Cons.prems offer_from [of "map (\<lambda>pos. (pos, n)) ?spots" s g]
      unfolding e by auto
  next
    case False
    then have "hidden_digits al x axis (n # ns) s = Fail s
        \<or> hidden_digits al x axis (n # ns) s = hidden_digits al x axis ns ?s1
        \<or> hidden_digits al x axis (n # ns) s = hidden_digits al x axis ns s" by auto
    then show ?thesis
      using Cons.IH [of s] Cons.IH [of ?s1] Cons.prems by auto
  qed
qed

lemma hidden_guess_from:
  "d_guess (flow_state (hidden al nd ls s)) = Some g \<Longrightarrow>
   d_guess s = Some g \<or> g \<in> hidden_offers al nd ls"
proof (induction ls arbitrary: s)
  case Nil
  then show ?case by simp
next
  case (Cons l ls)
  obtain axis x where l: "l = (axis, x)" by (cases l)
  let ?f = "hidden_digits al x axis (listbits (nd ! (axis * 9 + x))) s"
  have mono: "hidden_offers al nd ls \<subseteq> hidden_offers al nd (l # ls)"
    unfolding hidden_offers_def by auto
  have here: "g' \<in> hidden_offers al nd (l # ls)"
    if "n \<in> set (listbits (nd ! (axis * 9 + x)))" "g' = map (\<lambda>p. (p, n)) (spots_of al x axis n)"
      "2 \<le> length (spots_of al x axis n)" for n g'
    using that unfolding hidden_offers_def l by (intro CollectI exI [of _ axis] exI [of _ x] exI [of _ n]) simp
  have hd: "d_guess s = Some g \<or> g \<in> hidden_offers al nd (l # ls)"
    if "d_guess (flow_state ?f) = Some g"
    using hidden_digits_guess_from [OF that] here by blast
  show ?case
  proof (cases ?f)
    case (Fail s1)
    then have "d_guess (flow_state ?f) = Some g" using Cons.prems by (simp add: l)
    then show ?thesis by (rule hd)
  next
    case (Continue s1)
    then have e: "hidden al nd (l # ls) s = hidden al nd ls s1" by (simp add: l)
    from Cons.IH [of s1] Cons.prems have "d_guess s1 = Some g \<or> g \<in> hidden_offers al nd ls"
      unfolding e by simp
    then show ?thesis
    proof
      assume "d_guess s1 = Some g"
      then have "d_guess (flow_state ?f) = Some g" using Continue by simp
      then show ?thesis by (rule hd)
    next
      assume "g \<in> hidden_offers al nd ls"
      then show ?thesis using mono by blast
    qed
  qed
qed

text \<open>The branch set that an iteration returns.\<close>

lemma deduce_iter_branch_from:
  assumes "deduce_iter r b = Inr (Returns (Some g) b' r')" and "g \<noteq> []"
  obtains al nd g0 where "figurebits b = Inr (al, nd)" "b' = b" "mset g = mset g0"
    "g0 \<in> naked_offers al [0..<81] \<or> g0 \<in> hidden_offers al nd axis_lines"
  using assms(1)
proof (cases rule: deduce_iter_cases)
  case (branch al nd s al' nd' s' g0 g1 r1)
  have up: "set [0..<81] \<subseteq> {..<81}" by auto
  have len: "81 \<le> length b" using figurebits_Inr(1) [OF branch(1)] .
  have p1: "progress al (dinit r b) s"
    using naked_progress [OF up, of "dinit r b" al] len branch(2) by simp
  have "81 \<le> length (d_board s)" using figurebits_Inr(1) [OF branch(3)] .
  from hidden_progress [OF all_lines_lt9 this, of al' nd'] branch(4)
  have p2: "progress al' s s'" by simp
  have s: "d_stuck s" "d_board s' = d_board s" using progress_stuck [OF p2 branch(5)] by auto
  then have b: "d_board s = b" using progress_stuck [OF p1] by simp
  then have al': "al' = al" "nd' = nd" using branch(1,3) by simp_all
  have "d_guess s = Some g0 \<or> g0 \<in> hidden_offers al nd axis_lines"
    using hidden_guess_from [of al nd axis_lines s g0] branch(4,6) al' by simp
  moreover have "g0 \<in> naked_offers al [0..<81]" if "d_guess s = Some g0"
    using naked_guess_from [of al "[0..<81]" "dinit r b" g0] branch(2) that by simp
  ultimately have "g0 \<in> naked_offers al [0..<81] \<or> g0 \<in> hidden_offers al nd axis_lines" by blast
  moreover have "mset g = mset g0" using mset_shuffle [of "d_rnd s'" g0] branch(7,8) by simp
  ultimately show ?thesis using that [OF branch(1)] branch(8) s b by simp
qed (use assms(2) in auto)

lemma offers_length:
  "g \<in> naked_offers al ps \<or> g \<in> hidden_offers al nd ls \<Longrightarrow> 2 \<le> length g"
  by (auto simp: naked_offers_def hidden_offers_def)


section \<open>The three outcomes of deduce\<close>


lemma deduce_iter_solved:
  assumes "deduce_iter r b = Inr (Returns None b' r')"
  shows "b' = b" and "solved b"
proof -
  have up: "set [0..<81] \<subseteq> {..<81}" by auto
  from assms have "b' = b \<and> solved b"
  proof (cases rule: deduce_iter_cases)
    case (solved al nd s al' nd' s')
    have len: "81 \<le> length b" using figurebits_Inr(1) [OF solved(1)] .
    have p1: "progress al (dinit r b) s"
      using naked_progress [OF up, of "dinit r b" al] len solved(2) by simp
    have "81 \<le> length (d_board s)" using figurebits_Inr(1) [OF solved(3)] .
    from hidden_progress [OF all_lines_lt9 this, of al' nd'] solved(4)
    have p2: "progress al' s s'" by simp
    have s: "d_stuck s" "d_board s' = d_board s" using progress_stuck [OF p2 solved(5)] by auto
    then have b: "d_board s = b" using progress_stuck [OF p1] by simp
    then have al': "al' = al" "nd' = nd" using solved(1,3) by simp_all
    have "d_guess s = None"
      using hidden_keeps_guess [of s al' nd' axis_lines] solved(4,6) by (metis flow_state.simps(1))
    from naked_stuck_no_guess [OF solved(2) s(1) this up] len
    have filled: "\<forall>p<81. b ! p \<noteq> None" by simp
    have "\<exists>y<9. b ! posfor (snd l) y (fst l) = Some d" if l: "l \<in> set axis_lines" and d: "d < 9" for l d
    proof (rule ccontr)
      assume no: "\<not> (\<exists>y<9. b ! posfor (snd l) y (fst l) = Some d)"
      then have "bit (axismissing b (snd l) (fst l)) d" using d by (simp add: bit_axismissing)
      then have "d \<in> set (listbits (nd ! (fst l * 9 + snd l)))"
        using needed_nth [OF solved(1) l] d by (simp add: set_listbits)
      then have "spots_of al (snd l) (fst l) d \<noteq> []"
        using hidden_Continue [OF solved(4)] l al' by blast
      moreover have "snd l < 9" using l all_lines_lt9 by blast
      ultimately show False using spots_all_filled [OF solved(1) filled] by blast
    qed
    then have "solved b" by (intro lines_complete_solved) blast
    then show ?thesis using solved(7) s b by simp
  qed auto
  then show "b' = b" and "solved b" by blast+
qed


lemma deduce_None_solved:
  assumes "deduce r b = Inr (None, b', r')"
  shows "solved b'" and "extends b b'"
proof -
  obtain r0 b0 where f: "extends b b0" "deduce_iter r0 b0 = Inr (Returns None b' r')"
    using deduce_final [OF assms] by blast
  from deduce_iter_solved [OF f(2)] show "solved b'" by simp
  show "extends b b'" using deduce_extends(1) [OF assms] .
qed


lemma solved_filled: "solved b \<Longrightarrow> p < 81 \<Longrightarrow> b ! p \<noteq> None"
  unfolding solved_def by fastforce

lemma hidden_digits_Nil_needed: "hidden_digits al x axis [] s = Continue s"
  by simp

lemma hidden_nothing_needed:
  "\<forall>l \<in> set ls. listbits (nd ! (fst l * 9 + snd l)) = [] \<Longrightarrow> hidden al nd ls s = Continue s"
  by (induction ls) auto

lemma solved_nothing_needed:
  assumes "solved b" and "l \<in> set axis_lines"
  shows "listbits (axismissing b (snd l) (fst l)) = []"
proof -
  have "\<not> bit (axismissing b (snd l) (fst l)) d" if "d < 9" for d
    using solved_line [OF assms that] that by (simp add: bit_axismissing)
  then have "set (listbits (axismissing b (snd l) (fst l))) = {}" by (auto simp: set_listbits)
  then show ?thesis by simp
qed

text \<open>On a board that is already solved, deduce changes nothing and reports it solved.\<close>

lemma deduce_iter_of_solved:
  assumes "solved b" and "81 \<le> length b"
  shows "deduce_iter r b = Inr (Returns None b r)"
proof -
  obtain al nd where fig: "figurebits b = Inr (al, nd)" using figurebits_ok [OF assms(2)] by blast
  have "\<forall>p \<in> set [0..<81]. d_board (dinit r b) ! p \<noteq> None"
    using solved_filled [OF assms(1)] by simp
  then have n: "naked al [0..<81] (dinit r b) = Continue (dinit r b)" by (rule naked_all_filled)
  have "\<forall>l \<in> set axis_lines. listbits (nd ! (fst l * 9 + snd l)) = []"
    using needed_nth [OF fig] solved_nothing_needed [OF assms(1)] by simp
  then have h: "hidden al nd axis_lines (dinit r b) = Continue (dinit r b)"
    by (rule hidden_nothing_needed)
  show ?thesis
    using fig n h by (simp add: deduce_iter_def dinit_def [symmetric])
qed

lemma deduce_of_solved:
  assumes "solved b" and "81 \<le> length b"
  shows "deduce r b = Inr (None, b, r)"
  using deduce_iter_of_solved [OF assms, of r] by (subst deduce.simps) simp

section \<open>A solved board\<close>

definition lines_ok :: "board \<Rightarrow> bool" where
  "lines_ok b = list_all (\<lambda>l. list_all (\<lambda>d. count_list (line_cells b l) (Some d) = 1) [0..<9]) axis_lines"

lemma lines_ok_solved: "lines_ok b \<Longrightarrow> solved b"
proof (rule lines_complete_solved, intro ballI allI impI)
  fix l d assume a: "lines_ok b" "l \<in> set axis_lines" "(d::nat) < 9"
  then have "count_list (line_cells b l) (Some d) = 1"
    by (auto simp: lines_ok_def list_all_iff)
  then have "Some d \<in> set (line_cells b l)" by (metis count_notin zero_neq_one)
  then show "\<exists>y<9. b ! posfor (snd l) y (fst l) = Some d" unfolding mem_line_cells .
qed

definition example_solution :: board where
  "example_solution = map Some
     [0, 1, 2, 3, 4, 5, 6, 7, 8,
      3, 4, 5, 6, 7, 8, 0, 1, 2,
      6, 7, 8, 0, 1, 2, 3, 4, 5,
      1, 2, 3, 4, 5, 6, 7, 8, 0,
      4, 5, 6, 7, 8, 0, 1, 2, 3,
      7, 8, 0, 1, 2, 3, 4, 5, 6,
      2, 3, 4, 5, 6, 7, 8, 0, 1,
      5, 6, 7, 8, 0, 1, 2, 3, 4,
      8, 0, 1, 2, 3, 4, 5, 6, 7]"

lemma example_lines_ok: "lines_ok example_solution"
  by code_simp

lemma example_solved: "solved example_solution"
  by (rule lines_ok_solved [OF example_lines_ok])

lemma example_length: "length example_solution = 81"
  by (simp add: example_solution_def)

section \<open>The search stack\<close>

definition frame_board :: "frame \<Rightarrow> board" where
  "frame_board f = snd (snd f)"

lemma frame_board_simp [simp]: "frame_board (g, c, w) = w"
  by (simp add: frame_board_def)

text \<open>
  The stacks of a search on board \<open>b\<close>: every frame holds a board that extends \<open>b\<close>, its
  options name empty cells of that board, and a frame has fewer empty cells than every
  frame below it.
\<close>

fun stack_wf :: "board \<Rightarrow> frame list \<Rightarrow> bool" where
  "stack_wf b [] = True"
| "stack_wf b (f # rest) =
     (extends b (frame_board f) \<and>
      (\<forall>(p, n) \<in> set (fst f). p < 81 \<and> frame_board f ! p = None) \<and>
      (\<forall>f' \<in> set rest. empties (frame_board f) < empties (frame_board f')) \<and>
      stack_wf b rest)"

lemma stack_wf_distinct: "stack_wf b st \<Longrightarrow> distinct (map frame_board st)"
  by (induction st) (auto simp: image_iff)

lemma stack_wf_advance: "stack_wf b ((g, c, w) # rest) \<Longrightarrow> stack_wf b ((g, c', w) # rest)"
  by simp

lemma stack_wf_start:
  assumes "deduce r b = Inr (Some g, w, r')"
  shows "stack_wf b [(g, 0, w)]"
  using deduce_extends(1) [OF assms] deduce_guess [OF assms] by auto

lemma extends_update:
  assumes "p < 81" and "p < length w" and "w ! p = None"
  shows "extends w (w[p := Some n])"
  unfolding extends_def using assms by (auto simp: nth_list_update)

lemma stack_wf_push:
  assumes wf: "stack_wf b ((g, c, w) # rest)" and c: "c < length g"
    and d: "deduce r (w[fst (g ! c) := Some (snd (g ! c))]) = Inr (g', w', r')"
    and len: "81 \<le> length b"
  shows "extends b w'" and "empties w' < empties w"
    and "\<And>gs. g' = Some gs \<Longrightarrow> stack_wf b ((gs, 0, w') # (g, c', w) # rest)"
proof -
  let ?p = "fst (g ! c)"
  have "g ! c \<in> set g" using c by simp
  then have p: "?p < 81" "w ! ?p = None" using wf by (auto simp: case_prod_beta)
  have bw: "extends b w" using wf by simp
  then have lw: "?p < length w" using p len by (simp add: extends_length)
  have e1: "extends w (w[?p := Some (snd (g ! c))])" using extends_update [OF p(1) lw p(2)] .
  have e2: "extends (w[?p := Some (snd (g ! c))]) w'" using deduce_extends(1) [OF d] .
  show e: "extends b w'" using bw e1 e2 extends_trans by blast
  have "empties (w[?p := Some (snd (g ! c))]) < empties w" using empties_update_less [OF p(1) lw p(2)] .
  then show less: "empties w' < empties w" using extends_empties [OF e2] by simp
  fix gs assume gs: "g' = Some gs"
  have "\<forall>(p, n) \<in> set gs. p < 81 \<and> w' ! p = None" using deduce_guess [of r _ gs w' r'] d gs by auto
  moreover have "\<forall>f' \<in> set ((g, c', w) # rest). empties w' < empties (frame_board f')"
    using less wf by fastforce
  ultimately show "stack_wf b ((gs, 0, w') # (g, c', w) # rest)" using e wf by simp
qed

subsection \<open>The loop of solvenext, case by case\<close>

lemma solvenext_pop:
  "length g \<le> c \<Longrightarrow> solvenext r ((g, c, w) # rest) = solvenext r rest"
  by simp

lemma solvenext_found:
  "c < length g \<Longrightarrow> fst (g ! c) < length w \<Longrightarrow>
   deduce r (w[fst (g ! c) := Some (snd (g ! c))]) = Inr (None, w', r') \<Longrightarrow>
   solvenext r ((g, c, w) # rest) = Inr ((g, c + 1, w) # rest, Some w', r')"
  by simp

lemma solvenext_push:
  "c < length g \<Longrightarrow> fst (g ! c) < length w \<Longrightarrow>
   deduce r (w[fst (g ! c) := Some (snd (g ! c))]) = Inr (Some gs, w', r') \<Longrightarrow>
   solvenext r ((g, c, w) # rest) = solvenext r' ((gs, 0, w') # (g, c + 1, w) # rest)"
  by simp

lemma solvenext_raise:
  "c < length g \<Longrightarrow> length w \<le> fst (g ! c) \<or> deduce r (w[fst (g ! c) := Some (snd (g ! c))]) = Inl e \<Longrightarrow>
   \<exists>e'. solvenext r ((g, c, w) # rest) = Inl e'"
  by auto

lemma solvenext_induct [case_names empty pop raise found push]:
  assumes "\<And>r. P r []"
    and "\<And>r g c w rest. length g \<le> c \<Longrightarrow> P r rest \<Longrightarrow> P r ((g, c, w) # rest)"
    and "\<And>r g c w rest e. c < length g \<Longrightarrow>
           length w \<le> fst (g ! c) \<or> deduce r (w[fst (g ! c) := Some (snd (g ! c))]) = Inl e \<Longrightarrow>
           P r ((g, c, w) # rest)"
    and "\<And>r g c w rest w' r'. c < length g \<Longrightarrow> fst (g ! c) < length w \<Longrightarrow>
           deduce r (w[fst (g ! c) := Some (snd (g ! c))]) = Inr (None, w', r') \<Longrightarrow>
           P r ((g, c, w) # rest)"
    and "\<And>r g c w rest gs w' r'. c < length g \<Longrightarrow> fst (g ! c) < length w \<Longrightarrow>
           deduce r (w[fst (g ! c) := Some (snd (g ! c))]) = Inr (Some gs, w', r') \<Longrightarrow>
           P r' ((gs, 0, w') # (g, c + 1, w) # rest) \<Longrightarrow>
           P r ((g, c, w) # rest)"
  shows "P r st"
proof (induction r st rule: solvenext.induct)
  case (1 r)
  show ?case by (rule assms(1))
next
  case (2 r g c w rest)
  show ?case
  proof (cases "length g \<le> c")
    case True
    then show ?thesis using "2.IH"(1) assms(2) by blast
  next
    case False
    then have c: "c < length g" by simp
    show ?thesis
    proof (cases "length w \<le> fst (g ! c)")
      case True
      then show ?thesis using assms(3) [OF c] by blast
    next
      case F2: False
      then have p: "fst (g ! c) < length w" by simp
      show ?thesis
      proof (cases "deduce r (w[fst (g ! c) := Some (snd (g ! c))])")
        case (Inl e)
        then show ?thesis using assms(3) [OF c] by blast
      next
        case (Inr res)
        obtain g' w' r' where res: "res = (g', w', r')" by (cases res)
        show ?thesis
        proof (cases g')
          case None
          then show ?thesis using assms(4) [OF c p] Inr res by blast
        next
          case (Some gs)
          have "P r' ((gs, 0, w') # (g, c + 1, w) # rest)"
            using "2.IH"(2) [OF False F2 Inr res [symmetric] Some refl] .
          then show ?thesis using assms(5) [OF c p] Inr res Some by blast
        qed
      qed
    qed
  qed
qed

declare solvenext.simps(2) [simp del]

text \<open>On such a stack \<^verbatim>\<open>solvenext\<close> raises nothing, and what it returns is solved.\<close>

lemma stack_wf_no_raise:
  assumes "stack_wf b ((g, c, w) # rest)" and "81 \<le> length b" and "c < length g"
  shows "fst (g ! c) < length w"
    and "\<exists>g' w' r'. deduce r (w[fst (g ! c) := Some (snd (g ! c))]) = Inr (g', w', r')"
proof -
  have "g ! c \<in> set g" using assms(3) by simp
  then have p: "fst (g ! c) < 81" using assms(1) by (auto simp: case_prod_beta)
  have l: "length w = length b" using assms(1) by (simp add: extends_length)
  then show "fst (g ! c) < length w" using p assms(2) by simp
  have "81 \<le> length (w[fst (g ! c) := Some (snd (g ! c))])" using l assms(2) by simp
  then show "\<exists>g' w' r'. deduce r (w[fst (g ! c) := Some (snd (g ! c))]) = Inr (g', w', r')"
    by (rule deduce_ok)
qed

lemma solvenext_wf:
  assumes "stack_wf b st" and "81 \<le> length b"
  shows "\<exists>st' a r'. solvenext r st = Inr (st', a, r') \<and> stack_wf b st' \<and>
           (\<forall>w. a = Some w \<longrightarrow> solved w \<and> extends b w)"
  using assms
proof (induction r st rule: solvenext_induct)
  case (empty r)
  then show ?case by simp
next
  case (pop r g c w rest)
  then show ?case by (simp add: solvenext_pop)
next
  case (raise r g c w rest e)
  then show ?case
    using stack_wf_no_raise(1) [OF raise(3,4,1)] stack_wf_no_raise(2) [OF raise(3,4,1), of r] by auto
next
  case (found r g c w rest w' r')
  have "solved w'" using deduce_None_solved(1) found(3) by blast
  moreover have "extends b w'" using stack_wf_push(1) [OF found(4,1,3,5)] .
  moreover have "stack_wf b ((g, c + 1, w) # rest)" using stack_wf_advance [OF found(4)] .
  ultimately show ?case using solvenext_found [OF found(1,2,3)] by simp
next
  case (push r g c w rest gs w' r')
  have "stack_wf b ((gs, 0, w') # (g, c + 1, w) # rest)"
    using stack_wf_push(3) [OF push(5,1,3,6) refl] .
  from push(4) [OF this push(6)] show ?case using solvenext_push [OF push(1,2,3)] by simp
qed

lemma solveboard_wf:
  assumes "81 \<le> length b"
  shows "\<exists>st a r'. solveboard r b = Inr (st, a, r') \<and> stack_wf b st \<and>
           (\<forall>w. a = Some w \<longrightarrow> solved w \<and> extends b w)"
proof -
  obtain g w r1 where d: "deduce r b = Inr (g, w, r1)" using deduce_ok [OF assms] by blast
  show ?thesis
  proof (cases g)
    case None
    then show ?thesis using d deduce_None_solved [of r b w r1] by (simp add: solveboard_def)
  next
    case (Some gs)
    have "stack_wf b [(gs, 0, w)]" using stack_wf_start d Some by blast
    from solvenext_wf [OF this assms, of r1] show ?thesis using d Some by (simp add: solveboard_def)
  qed
qed

lemma boardmatches_from_eq:
  "\<forall>i \<in> set is. i < length b1 \<and> i < length b2 \<Longrightarrow>
   boardmatches_from is b1 b2 = Inr (\<forall>i \<in> set is. b1 ! i = b2 ! i)"
  by (induction "is") auto

lemma boardmatches_eq:
  "81 \<le> length b1 \<Longrightarrow> 81 \<le> length b2 \<Longrightarrow> boardmatches b1 b2 = Inr (\<forall>i<81. b1 ! i = b2 ! i)"
  unfolding boardmatches_def by (subst boardmatches_from_eq) auto

section \<open>Solutions of a board\<close>

text \<open>A solution of a board is a solved board that extends it.\<close>

definition solution_of :: "board \<Rightarrow> board \<Rightarrow> bool" where
  "solution_of b S \<longleftrightarrow> solved S \<and> extends b S"

lemma solution_ofD: "solution_of b S \<Longrightarrow> solved S" "solution_of b S \<Longrightarrow> extends b S"
  by (simp_all add: solution_of_def)

lemma solution_of_mono: "extends a b \<Longrightarrow> solution_of b S \<Longrightarrow> solution_of a S"
  unfolding solution_of_def using extends_trans by blast

lemma solved_digit: "solved S \<Longrightarrow> p < 81 \<Longrightarrow> \<exists>d<9. S ! p = Some d"
  by (simp add: solved_def)

lemma extends_solved_eq:
  assumes "solved w" and "extends w S"
  shows "S = w"
proof (rule nth_equalityI)
  show "length S = length w" using assms(2) by (rule extends_length)
next
  fix p assume "p < length S"
  show "S ! p = w ! p"
  proof (rule ccontr)
    assume "S ! p \<noteq> w ! p"
    then have "p < 81 \<and> w ! p = None" using assms(2) unfolding extends_def by blast
    then show False using solved_filled [OF assms(1)] by blast
  qed
qed

lemma solution_of_solved: "solved w \<Longrightarrow> solution_of w S \<longleftrightarrow> S = w"
  using extends_solved_eq extends_refl by (auto simp: solution_of_def)

lemma extends_assign:
  assumes "extends c S" and "S ! q = Some n" and "q < 81" and "q < length c"
  shows "extends (c[q := Some n]) S"
  unfolding extends_def
proof (intro conjI allI impI)
  show "length S = length (c[q := Some n])" using assms(1) by (simp add: extends_length)
next
  fix p assume d: "S ! p \<noteq> c[q := Some n] ! p"
  then have "p \<noteq> q" using assms(2,4) by auto
  then have "S ! p \<noteq> c ! p" using d by simp
  then have "p < 81 \<and> c ! p = None \<and> S ! p \<noteq> None" using assms(1) unfolding extends_def by blast
  then show "p < 81" and "c[q := Some n] ! p = None" and "S ! p \<noteq> None" using \<open>p \<noteq> q\<close> by simp_all
qed

lemma solution_of_update:
  assumes "p < 81" and "p < length w" and "w ! p = None"
  shows "solution_of (w[p := Some n]) S \<longleftrightarrow> solution_of w S \<and> S ! p = Some n"
proof
  assume s: "solution_of (w[p := Some n]) S"
  then have "solution_of w S" using solution_of_mono extends_update [OF assms] by blast
  moreover have "S ! p = Some n"
    using extends_filled [OF solution_ofD(2) [OF s], of p n] assms(2) by simp
  ultimately show "solution_of w S \<and> S ! p = Some n" by simp
next
  assume "solution_of w S \<and> S ! p = Some n"
  then show "solution_of (w[p := Some n]) S"
    using extends_assign [of w S p n] assms by (simp add: solution_of_def)
qed

subsection \<open>Candidates and solutions\<close>

lemma on_lineD: "on_line p l \<Longrightarrow> \<exists>y<9. p = posfor (snd l) y (fst l)"
  by (auto simp: on_line_def split: prod.splits)

lemma solution_candidate:
  assumes fig: "figurebits b = Inr (al, nd)" and sol: "solution_of b S"
    and p: "p < 81" "b ! p = None" and m: "S ! p = Some m"
  shows "bit (al ! p) m"
proof -
  have S: "solved S" and ext: "extends b S" using sol by (simp_all add: solution_of_def)
  have m9: "m < 9" using solved_digit [OF S p(1)] m by auto
  have pl: "p < length b" using figurebits_Inr(1) [OF fig] p(1) by simp
  have "bit (axismissing b (snd l) (fst l)) m" if l: "l \<in> set axis_lines" and on: "on_line p l" for l
  proof -
    obtain y0 where y0: "y0 < 9" "p = posfor (snd l) y0 (fst l)" using on_lineD [OF on] by blast
    have "b ! posfor (snd l) y (fst l) \<noteq> Some m" if y: "y < 9" for y
    proof
      assume e: "b ! posfor (snd l) y (fst l) = Some m"
      then have "S ! posfor (snd l) y (fst l) = Some m" using extends_filled [OF ext] by blast
      then have "S ! posfor (snd l) y (fst l) = S ! posfor (snd l) y0 (fst l)" using m y0(2) by simp
      then have "y = y0" using solved_line_inj [OF S l y y0(1)] by blast
      then show False using e p(2) y0(2) by simp
    qed
    then show ?thesis using m9 by (simp add: bit_axismissing)
  qed
  then show ?thesis using figurebits_Inr(4) [OF fig pl] p(2) m9 by blast
qed

lemma solution_in_listbits:
  assumes "figurebits b = Inr (al, nd)" and "solution_of b S" and "p < 81" "b ! p = None"
    and "S ! p = Some m"
  shows "m \<in> set (listbits (al ! p))"
proof -
  have "m < 9" using solved_digit [OF solution_ofD(1) [OF assms(2)] assms(3)] assms(5) by auto
  then show ?thesis using solution_candidate [OF assms] by (simp add: set_listbits)
qed

lemma bit_spot: "bit (a::int) n \<Longrightarrow> a AND push_bit n 1 \<noteq> 0"
  by (simp add: bit_iff_and_push_bit_not_eq_0)

lemma mem_spots_of:
  "q \<in> set (spots_of al x axis n) \<longleftrightarrow> (\<exists>y<9. q = posfor x y axis \<and> bit (al ! q) n)"
  by (auto simp: spots_of_def bit_iff_and_push_bit_not_eq_0)

lemma solution_spot:
  assumes fig: "figurebits b = Inr (al, nd)" and sol: "solution_of b S"
    and l: "l \<in> set axis_lines" and n: "n \<in> set (listbits (nd ! (fst l * 9 + snd l)))"
  shows "\<exists>y<9. S ! posfor (snd l) y (fst l) = Some n \<and>
           bit (al ! posfor (snd l) y (fst l)) n"
proof -
  have S: "solved S" and ext: "extends b S" using sol by (simp_all add: solution_of_def)
  have n9: "n < 9" and nb: "bit (axismissing b (snd l) (fst l)) n"
    using n needed_nth [OF fig l] by (simp_all add: set_listbits)
  then have miss: "\<forall>y<9. b ! posfor (snd l) y (fst l) \<noteq> Some n" by (simp add: bit_axismissing)
  obtain y where y: "y < 9" "S ! posfor (snd l) y (fst l) = Some n"
    using solved_line [OF S l n9] by blast
  let ?q = "posfor (snd l) y (fst l)"
  have x9: "snd l < 9" using l all_lines_lt9 by blast
  have q: "?q < 81" using posfor_less [OF x9 y(1)] .
  have "b ! ?q = None"
  proof (cases "b ! ?q")
    case (Some k)
    then have "S ! ?q = Some k" using extends_filled [OF ext] by blast
    then show ?thesis using y(2) Some miss y(1) by auto
  qed simp
  from solution_candidate [OF fig sol q this y(2)] y show ?thesis by blast
qed

subsection \<open>The passes of deduce keep every solution\<close>

lemma single_listbits:
  assumes "length (listbits a) = 1" and "m \<in> set (listbits a)"
  shows "listbits a ! 0 = m"
  using assms by (cases "listbits a") auto

lemma naked_sound:
  assumes fig: "figurebits b = Inr (al, nd)" and sol: "solution_of b S"
  shows "extends b (d_board s) \<Longrightarrow> extends (d_board s) S \<Longrightarrow> set ps \<subseteq> {..<81} \<Longrightarrow>
         \<exists>s'. naked al ps s = Continue s' \<and> extends (d_board s') S"
proof (induction ps arbitrary: s)
  case Nil
  then show ?case by simp
next
  case (Cons pos ps)
  have ps: "set ps \<subseteq> {..<81}" and pos: "pos < 81" using Cons.prems by auto
  let ?nums = "listbits (al ! pos)"
  let ?s1 = "s\<lparr>d_board := (d_board s)[pos := Some (?nums ! 0)], d_stuck := False\<rparr>"
  let ?s2 = "offer (map (\<lambda>n. (pos, n)) ?nums) s"
  have lenb: "81 \<le> length b" using figurebits_Inr(1) [OF fig] .
  have lens: "length (d_board s) = length b" using Cons.prems(1) by (rule extends_length)
  show ?case
  proof (cases "d_board s ! pos = None")
    case False
    then have "naked al (pos # ps) s = naked al ps s" by auto
    then show ?thesis using Cons.IH [OF Cons.prems(1,2) ps] by simp
  next
    case True
    then have bn: "b ! pos = None" using extends_empty [OF Cons.prems(1)] by blast
    obtain m where m: "S ! pos = Some m"
      using solved_digit [OF solution_ofD(1) [OF sol] pos] by blast
    have mem: "m \<in> set ?nums" using solution_in_listbits [OF fig sol pos bn m] .
    then have n0: "length ?nums \<noteq> 0" by auto
    show ?thesis
    proof (cases "length ?nums = 1")
      case L1: True
      have v: "?nums ! 0 = m" using single_listbits [OF L1 mem] .
      have e1: "extends (d_board ?s1) S"
        using extends_assign [OF Cons.prems(2) m pos] lens lenb pos v by simp
      have "extends (d_board s) (d_board ?s1)"
        using extends_update [OF pos _ True] lens lenb pos by simp
      then have e0: "extends b (d_board ?s1)" using Cons.prems(1) extends_trans by blast
      have "naked al (pos # ps) s = naked al ps ?s1" using True n0 L1 by simp
      then show ?thesis using Cons.IH [OF e0 e1 ps] by simp
    next
      case False
      show ?thesis
      proof (cases "d_stuck s")
        case St: True
        have "naked al (pos # ps) s = naked al ps ?s2" using True n0 False St by simp
        then show ?thesis using Cons.IH [of ?s2] Cons.prems(1,2) ps by simp
      next
        case St: False
        have "naked al (pos # ps) s = naked al ps s" using True n0 False St by simp
        then show ?thesis using Cons.IH [OF Cons.prems(1,2) ps] by simp
      qed
    qed
  qed
qed

lemma single_spot:
  assumes "length xs = 1" and "q \<in> set xs"
  shows "xs ! 0 = q"
  using assms by (cases xs) auto

lemma hidden_digits_sound:
  assumes fig: "figurebits b = Inr (al, nd)" and sol: "solution_of b S"
    and l: "l \<in> set axis_lines"
  shows "extends (d_board s) S \<Longrightarrow> length (d_board s) = length b \<Longrightarrow>
         set ns \<subseteq> set (listbits (nd ! (fst l * 9 + snd l))) \<Longrightarrow>
         \<exists>s'. hidden_digits al (snd l) (fst l) ns s = Continue s' \<and> extends (d_board s') S \<and>
              length (d_board s') = length b"
proof (induction ns arbitrary: s)
  case Nil
  then show ?case by simp
next
  case (Cons n ns)
  let ?spots = "spots_of al (snd l) (fst l) n"
  let ?s1 = "s\<lparr>d_board := (d_board s)[?spots ! 0 := Some n], d_stuck := False\<rparr>"
  let ?s2 = "offer (map (\<lambda>pos. (pos, n)) ?spots) s"
  have ns: "set ns \<subseteq> set (listbits (nd ! (fst l * 9 + snd l)))" and
    n: "n \<in> set (listbits (nd ! (fst l * 9 + snd l)))" using Cons.prems(3) by auto
  have lenb: "81 \<le> length b" using figurebits_Inr(1) [OF fig] .
  obtain y where y: "y < 9" "S ! posfor (snd l) y (fst l) = Some n"
    "bit (al ! posfor (snd l) y (fst l)) n"
    using solution_spot [OF fig sol l n] by blast
  let ?q = "posfor (snd l) y (fst l)"
  have mem: "?q \<in> set ?spots" unfolding mem_spots_of using y by blast
  then have n0: "length ?spots \<noteq> 0" by auto
  have x9: "snd l < 9" using l all_lines_lt9 by blast
  have q: "?q < 81" using posfor_less [OF x9 y(1)] .
  show ?case
  proof (cases "length ?spots = 1")
    case L1: True
    have v: "?spots ! 0 = ?q" using single_spot [OF L1 mem] .
    have e1: "extends (d_board ?s1) S"
      using extends_assign [OF Cons.prems(1) y(2) q] Cons.prems(2) lenb q v by simp
    have "hidden_digits al (snd l) (fst l) (n # ns) s = hidden_digits al (snd l) (fst l) ns ?s1"
      using n0 L1 by simp
    then show ?thesis using Cons.IH [OF e1 _ ns] Cons.prems(2) by simp
  next
    case False
    show ?thesis
    proof (cases "d_stuck s")
      case St: True
      have "hidden_digits al (snd l) (fst l) (n # ns) s = hidden_digits al (snd l) (fst l) ns ?s2"
        using n0 False St by simp
      then show ?thesis using Cons.IH [of ?s2] Cons.prems(1,2) ns by simp
    next
      case St: False
      have "hidden_digits al (snd l) (fst l) (n # ns) s = hidden_digits al (snd l) (fst l) ns s"
        using n0 False St by simp
      then show ?thesis using Cons.IH [OF Cons.prems(1,2) ns] by simp
    qed
  qed
qed

lemma hidden_sound:
  assumes fig: "figurebits b = Inr (al, nd)" and sol: "solution_of b S"
  shows "extends (d_board s) S \<Longrightarrow> length (d_board s) = length b \<Longrightarrow> set ls \<subseteq> set axis_lines \<Longrightarrow>
         \<exists>s'. hidden al nd ls s = Continue s' \<and> extends (d_board s') S"
proof (induction ls arbitrary: s)
  case Nil
  then show ?case by simp
next
  case (Cons l ls)
  have l: "l \<in> set axis_lines" and ls: "set ls \<subseteq> set axis_lines" using Cons.prems(3) by auto
  obtain s1 where s1: "hidden_digits al (snd l) (fst l) (listbits (nd ! (fst l * 9 + snd l))) s = Continue s1"
    "extends (d_board s1) S" "length (d_board s1) = length b"
    using hidden_digits_sound [OF fig sol l Cons.prems(1,2), of "listbits (nd ! (fst l * 9 + snd l))"]
    by auto
  have "hidden al nd (l # ls) s = hidden al nd ls s1"
    using s1(1) by (cases l) simp
  then show ?case using Cons.IH [OF s1(2,3) ls] by simp
qed

lemma final_guess_length:
  assumes "naked al ps (dinit r b) = Continue s" and "hidden al' nd' ls s = Continue s'"
    and "d_guess s' = Some g"
  shows "2 \<le> length g"
proof -
  have "d_guess s = Some g \<or> g \<in> hidden_offers al' nd' ls"
    using hidden_guess_from [of al' nd' ls s g] assms(2,3) by simp
  moreover have "g \<in> naked_offers al ps" if "d_guess s = Some g"
    using naked_guess_from [of al ps "dinit r b" g] assms(1) that by simp
  ultimately show ?thesis
    using offers_length [where g = g and al = al and ps = ps]
      offers_length [where g = g and al = al' and nd = nd' and ls = ls] by blast
qed

text \<open>An iteration keeps every solution, and does not report a contradiction if there is one.\<close>

lemma deduce_iter_sound:
  assumes "deduce_iter r b = Inr res" and sol: "solution_of b S"
  shows "solution_of (iter_board res) S" and "\<And>b' r'. res \<noteq> Returns (Some []) b' r'"
proof -
  have up: "set [0..<81] \<subseteq> {..<81}" by auto
  have S: "solved S" and ext: "extends b S" using sol by (simp_all add: solution_of_def)
  have "extends (iter_board res) S \<and> (\<forall>b' r'. res \<noteq> Returns (Some []) b' r')"
    using assms(1)
  proof (cases rule: deduce_iter_cases)
    case (naked_fail al nd s)
    from naked_sound [OF naked_fail(1) sol, of "dinit r b" "[0..<81]"] naked_fail(2) ext extends_refl up
    show ?thesis by simp
  next
    case (hidden_fail al nd s al' nd' s')
    obtain s1 where s1: "naked al [0..<81] (dinit r b) = Continue s1" "extends (d_board s1) S"
      using naked_sound [OF hidden_fail(1) sol, of "dinit r b" "[0..<81]"] ext extends_refl up by auto
    then have e: "extends (d_board s) S" using hidden_fail(2) by simp
    then have sol1: "solution_of (d_board s) S" using S by (simp add: solution_of_def)
    from hidden_sound [OF hidden_fail(3) sol1 e refl, of axis_lines] hidden_fail(4)
    show ?thesis by simp
  next
    case (solved al nd s al' nd' s')
    obtain s1 where s1: "naked al [0..<81] (dinit r b) = Continue s1" "extends (d_board s1) S"
      using naked_sound [OF solved(1) sol, of "dinit r b" "[0..<81]"] ext extends_refl up by auto
    then have e: "extends (d_board s) S" using solved(2) by simp
    then have sol1: "solution_of (d_board s) S" using S by (simp add: solution_of_def)
    from hidden_sound [OF solved(3) sol1 e refl, of axis_lines] solved(4,7)
    show ?thesis by simp
  next
    case (branch al nd s al' nd' s' g g' r1)
    obtain s1 where s1: "naked al [0..<81] (dinit r b) = Continue s1" "extends (d_board s1) S"
      using naked_sound [OF branch(1) sol, of "dinit r b" "[0..<81]"] ext extends_refl up by auto
    then have e: "extends (d_board s) S" using branch(2) by simp
    then have sol1: "solution_of (d_board s) S" using S by (simp add: solution_of_def)
    have "2 \<le> length g" using final_guess_length [OF branch(2,4,6)] .
    then have "g' \<noteq> []" using length_shuffle [of "d_rnd s'" g] branch(7) by auto
    from hidden_sound [OF branch(3) sol1 e refl, of axis_lines] branch(4,8) this
    show ?thesis by simp
  next
    case (again al nd s al' nd' s')
    obtain s1 where s1: "naked al [0..<81] (dinit r b) = Continue s1" "extends (d_board s1) S"
      using naked_sound [OF again(1) sol, of "dinit r b" "[0..<81]"] ext extends_refl up by auto
    then have e: "extends (d_board s) S" using again(2) by simp
    then have sol1: "solution_of (d_board s) S" using S by (simp add: solution_of_def)
    from hidden_sound [OF again(3) sol1 e refl, of axis_lines] again(4,6)
    show ?thesis by simp
  qed
  then show "solution_of (iter_board res) S" and "\<And>b' r'. res \<noteq> Returns (Some []) b' r'"
    using S by (simp_all add: solution_of_def)
qed

lemma deduce_sound:
  assumes "deduce r b = Inr (g, b', r')" and "solution_of b S"
  shows "solution_of b' S" and "g \<noteq> Some []"
proof -
  have "solution_of b' S \<and> g \<noteq> Some []" using assms
  proof (induction r b rule: deduce.induct)
    case (1 r board)
    show ?case
    proof (cases "deduce_iter r board")
      case (Inl e)
      then show ?thesis using "1.prems"(1) by (simp add: deduce.simps [of r board])
    next
      case (Inr res)
      note snd = deduce_iter_sound [OF Inr "1.prems"(2)]
      show ?thesis
      proof (cases res)
        case (Returns g1 b1 r1)
        then have "g1 = g \<and> b1 = b' \<and> r1 = r'"
          using "1.prems"(1) Inr by (simp add: deduce.simps [of r board])
        then show ?thesis using snd Returns by auto
      next
        case (Repeat b1 r1)
        then have d: "deduce r1 b1 = Inr (g, b', r')"
          using "1.prems"(1) Inr by (simp add: deduce.simps [of r board])
        have "solution_of b1 S" using snd(1) Repeat by simp
        from "1.IH" [OF Inr Repeat d this] show ?thesis .
      qed
    qed
  qed
  then show "solution_of b' S" and "g \<noteq> Some []" by simp_all
qed

lemma deduce_solutions:
  assumes "deduce r b = Inr (g, b', r')"
  shows "solution_of b' S \<longleftrightarrow> solution_of b S"
  using deduce_sound(1) [OF assms] solution_of_mono [OF deduce_extends(1) [OF assms]] by blast

subsection \<open>Branch sets\<close>

text \<open>
  A branch set for board \<open>w\<close>: distinct options on empty cells, of which every solution of
  \<open>w\<close> takes exactly one.
\<close>

definition hits :: "board \<Rightarrow> nat \<times> nat \<Rightarrow> bool" where
  "hits S opt \<longleftrightarrow> S ! fst opt = Some (snd opt)"

definition branch_ok :: "board \<Rightarrow> guess \<Rightarrow> bool" where
  "branch_ok w g \<longleftrightarrow>
     distinct g \<and> (\<forall>opt \<in> set g. fst opt < 81 \<and> w ! fst opt = None) \<and>
     (\<forall>S. solution_of w S \<longrightarrow> (\<exists>opt \<in> set g. hits S opt \<and> (\<forall>o' \<in> set g. hits S o' \<longrightarrow> o' = opt)))"

lemma branch_ok_perm: "mset g = mset g0 \<Longrightarrow> branch_ok w g0 \<Longrightarrow> branch_ok w g"
  unfolding branch_ok_def using mset_eq_setD [of g g0] mset_eq_imp_distinct_iff [of g g0] by simp

lemma table_inj:
  "\<forall>y<9. \<forall>y'<9. [0, 1, 2, 9, 10, 11, 18, 19, 20] ! y = ([0, 1, 2, 9, 10, 11, 18, 19, 20] ! y' :: nat)
     \<longrightarrow> y = y'"
  unfolding all_lt9 by simp

lemma posfor_inj:
  assumes "y < 9" and "y' < 9" and "posfor x y axis = posfor x y' axis"
  shows "y = y'"
  using assms table_inj by (auto simp: posfor_def split: if_splits)

lemma distinct_spots_of: "distinct (spots_of al x axis n)"
  unfolding spots_of_def
  by (intro distinct_filter) (auto simp: distinct_map inj_on_def dest: posfor_inj)

lemma naked_offer_ok:
  assumes fig: "figurebits b = Inr (al, nd)" and g: "g \<in> naked_offers al [0..<81]"
  shows "branch_ok b g"
proof -
  obtain p where p: "p < 81" "2 \<le> length (listbits (al ! p))"
    and g_eq: "g = map (\<lambda>n. (p, n)) (listbits (al ! p))"
    using g by (auto simp: naked_offers_def)
  have "listbits (al ! p) \<noteq> []" using p(2) by auto
  then have "p \<in> writable al" using p(1) listbits_nonempty by (simp add: writable_def)
  then have bp: "b ! p = None" using figurebits_writable [OF fig] by blast
  have d: "distinct g" unfolding g_eq by (simp add: distinct_map distinct_listbits inj_on_def)
  have pos: "\<forall>opt \<in> set g. fst opt < 81 \<and> b ! fst opt = None" using p(1) bp by (auto simp: g_eq)
  have "\<exists>opt \<in> set g. hits S opt \<and> (\<forall>o' \<in> set g. hits S o' \<longrightarrow> o' = opt)" if sol: "solution_of b S" for S
  proof -
    obtain m where m: "S ! p = Some m" using solved_digit [OF solution_ofD(1) [OF sol] p(1)] by blast
    have "m \<in> set (listbits (al ! p))" using solution_in_listbits [OF fig sol p(1) bp m] .
    then have "(p, m) \<in> set g" by (simp add: g_eq)
    moreover have "hits S (p, m)" using m by (simp add: hits_def)
    moreover have "o' = (p, m)" if "o' \<in> set g" "hits S o'" for o'
      using that m by (auto simp: g_eq hits_def)
    ultimately show ?thesis by blast
  qed
  with d pos show ?thesis unfolding branch_ok_def by blast
qed

lemma hidden_offer_ok:
  assumes fig: "figurebits b = Inr (al, nd)" and g: "g \<in> hidden_offers al nd axis_lines"
  shows "branch_ok b g"
proof -
  obtain axis x n where l: "(axis, x) \<in> set axis_lines"
    and n: "n \<in> set (listbits (nd ! (axis * 9 + x)))"
    and g_eq: "g = map (\<lambda>p. (p, n)) (spots_of al x axis n)"
    using g by (auto simp: hidden_offers_def)
  have x9: "x < 9" using l all_lines_lt9 by fastforce
  have d: "distinct g" unfolding g_eq by (simp add: distinct_map distinct_spots_of inj_on_def)
  have "fst opt \<in> writable al" if "opt \<in> set g" for opt
    using that spots_of_writable [OF x9, of al axis n] by (auto simp: g_eq)
  then have pos: "\<forall>opt \<in> set g. fst opt < 81 \<and> b ! fst opt = None"
    using figurebits_writable [OF fig] by blast
  have "\<exists>opt \<in> set g. hits S opt \<and> (\<forall>o' \<in> set g. hits S o' \<longrightarrow> o' = opt)" if sol: "solution_of b S" for S
  proof -
    obtain y where y: "y < 9" "S ! posfor x y axis = Some n" "bit (al ! posfor x y axis) n"
      using solution_spot [OF fig sol l] n by auto
    let ?q = "posfor x y axis"
    have "?q \<in> set (spots_of al x axis n)" unfolding mem_spots_of using y by blast
    then have "(?q, n) \<in> set g" by (simp add: g_eq)
    moreover have "hits S (?q, n)" using y(2) by (simp add: hits_def)
    moreover have "o' = (?q, n)" if o': "o' \<in> set g" "hits S o'" for o'
    proof -
      obtain y' where y': "y' < 9" "o' = (posfor x y' axis, n)"
        using o'(1) unfolding g_eq by (auto simp: mem_spots_of)
      then have "S ! posfor (snd (axis, x)) y' (fst (axis, x)) = S ! posfor (snd (axis, x)) y (fst (axis, x))"
        using o'(2) y(2) by (simp add: hits_def)
      from solved_line_inj [OF solution_ofD(1) [OF sol] l y'(1) y(1) this] y'(2) show ?thesis by simp
    qed
    ultimately show ?thesis by blast
  qed
  with d pos show ?thesis unfolding branch_ok_def by blast
qed

lemma deduce_iter_branch_ok:
  assumes "deduce_iter r b = Inr (Returns (Some g) b' r')" and "g \<noteq> []"
  shows "branch_ok b' g"
proof -
  from assms obtain al nd g0 where f: "figurebits b = Inr (al, nd)" "b' = b" "mset g = mset g0"
    "g0 \<in> naked_offers al [0..<81] \<or> g0 \<in> hidden_offers al nd axis_lines"
    by (rule deduce_iter_branch_from)
  have "branch_ok b g0" using f(4) naked_offer_ok [OF f(1)] hidden_offer_ok [OF f(1)] by blast
  then show ?thesis using branch_ok_perm [OF f(3)] f(2) by simp
qed

lemma deduce_branch_ok:
  assumes "deduce r b = Inr (Some g, b', r')"
  shows "branch_ok b' g"
proof (cases "g = []")
  case True
  have "\<not> solution_of b' S" for S
    using deduce_sound(2) [OF assms] deduce_solutions [OF assms] True by blast
  then show ?thesis using True by (simp add: branch_ok_def)
next
  case False
  obtain r0 b0 where "deduce_iter r0 b0 = Inr (Returns (Some g) b' r')"
    using deduce_final [OF assms] by blast
  then show ?thesis using deduce_iter_branch_ok False by blast
qed

section \<open>The search enumerates the solutions\<close>

text \<open>
  The solutions a frame still stands for: those of its board that take one of the options
  from the cursor on. The solutions a stack still stands for are those of its frames.
\<close>

definition todo :: "frame \<Rightarrow> board \<Rightarrow> bool" where
  "todo f S \<longleftrightarrow>
     (case f of (g, c, w) \<Rightarrow> solution_of w S \<and> (\<exists>i. c \<le> i \<and> i < length g \<and> hits S (g ! i)))"

definition remaining :: "frame list \<Rightarrow> board \<Rightarrow> bool" where
  "remaining st S \<longleftrightarrow> (\<exists>f \<in> set st. todo f S)"

definition branch_like :: "board \<Rightarrow> guess \<Rightarrow> bool" where
  "branch_like w g \<longleftrightarrow>
     distinct g \<and> (\<forall>opt \<in> set g. fst opt < 81 \<and> w ! fst opt = None) \<and>
     (\<forall>S. solution_of w S \<longrightarrow> (\<forall>opt \<in> set g. \<forall>o' \<in> set g. hits S opt \<and> hits S o' \<longrightarrow> o' = opt))"

lemma branch_ok_like: "branch_ok w g \<Longrightarrow> branch_like w g"
  unfolding branch_ok_def branch_like_def by metis

lemma branch_ok_cover: "branch_ok w g \<Longrightarrow> solution_of w S \<Longrightarrow> \<exists>i<length g. hits S (g ! i)"
  unfolding branch_ok_def by (metis in_set_conv_nth)

fun stack_sound :: "frame list \<Rightarrow> bool" where
  "stack_sound [] = True"
| "stack_sound (f # rest) =
     (branch_like (frame_board f) (fst f) \<and> 81 \<le> length (frame_board f) \<and>
      (\<forall>S. solution_of (frame_board f) S \<longrightarrow> \<not> remaining rest S) \<and>
      stack_sound rest)"

lemma remaining_Nil [simp]: "\<not> remaining [] S"
  by (simp add: remaining_def)

lemma remaining_Cons: "remaining (f # rest) S \<longleftrightarrow> todo f S \<or> remaining rest S"
  by (auto simp: remaining_def)

lemma todo_exhausted: "length g \<le> c \<Longrightarrow> \<not> todo (g, c, w) S"
  by (auto simp: todo_def)

lemma todo_solution: "todo (g, c, w) S \<Longrightarrow> solution_of w S"
  by (simp add: todo_def)

lemma option_solution:
  assumes "branch_like w g" and "81 \<le> length w" and "c < length g"
  shows "solution_of (w[fst (g ! c) := Some (snd (g ! c))]) S \<longleftrightarrow> solution_of w S \<and> hits S (g ! c)"
proof -
  have "g ! c \<in> set g" using assms(3) by simp
  then have "fst (g ! c) < 81" "w ! fst (g ! c) = None" using assms(1) by (auto simp: branch_like_def)
  then show ?thesis using solution_of_update [of "fst (g ! c)" w] assms(2) by (simp add: hits_def)
qed

lemma todo_step:
  assumes "branch_like w g" and "81 \<le> length w" and "c < length g"
  shows "todo (g, c, w) S \<longleftrightarrow>
           solution_of (w[fst (g ! c) := Some (snd (g ! c))]) S \<or> todo (g, c + 1, w) S"
    and "solution_of (w[fst (g ! c) := Some (snd (g ! c))]) S \<Longrightarrow> \<not> todo (g, c + 1, w) S"
proof -
  have "(\<exists>i. c \<le> i \<and> i < length g \<and> hits S (g ! i)) \<longleftrightarrow>
        hits S (g ! c) \<or> (\<exists>i. c + 1 \<le> i \<and> i < length g \<and> hits S (g ! i))"
  proof
    assume "\<exists>i. c \<le> i \<and> i < length g \<and> hits S (g ! i)"
    then obtain i where i: "c \<le> i" "i < length g" "hits S (g ! i)" by blast
    show "hits S (g ! c) \<or> (\<exists>i. c + 1 \<le> i \<and> i < length g \<and> hits S (g ! i))"
    proof (cases "i = c")
      case True
      then show ?thesis using i(3) by simp
    next
      case False
      then have "c + 1 \<le> i" using i(1) by simp
      then show ?thesis using i(2,3) by blast
    qed
  next
    assume "hits S (g ! c) \<or> (\<exists>i. c + 1 \<le> i \<and> i < length g \<and> hits S (g ! i))"
    then show "\<exists>i. c \<le> i \<and> i < length g \<and> hits S (g ! i)"
    proof
      assume "hits S (g ! c)"
      then show ?thesis using assms(3) by blast
    next
      assume "\<exists>i. c + 1 \<le> i \<and> i < length g \<and> hits S (g ! i)"
      then obtain i where "c + 1 \<le> i" "i < length g" "hits S (g ! i)" by blast
      then have "c \<le> i \<and> i < length g \<and> hits S (g ! i)" by simp
      then show ?thesis by blast
    qed
  qed
  then show "todo (g, c, w) S \<longleftrightarrow>
           solution_of (w[fst (g ! c) := Some (snd (g ! c))]) S \<or> todo (g, c + 1, w) S"
    unfolding option_solution [OF assms] by (auto simp: todo_def)
next
  assume s: "solution_of (w[fst (g ! c) := Some (snd (g ! c))]) S"
  then have sw: "solution_of w S" and h: "hits S (g ! c)" using option_solution [OF assms] by simp_all
  show "\<not> todo (g, c + 1, w) S"
  proof
    assume "todo (g, c + 1, w) S"
    then obtain i where i: "c + 1 \<le> i" "i < length g" "hits S (g ! i)" by (auto simp: todo_def)
    have "g ! i \<in> set g" "g ! c \<in> set g" using i(2) assms(3) by simp_all
    then have "g ! i = g ! c" using assms(1) sw h i(3) unfolding branch_like_def by blast
    moreover have "distinct g" using assms(1) by (simp add: branch_like_def)
    ultimately have "i = c" using i(2) assms(3) by (simp add: nth_eq_iff_index_eq)
    then show False using i(1) by simp
  qed
qed

lemma stack_sound_advance: "stack_sound ((g, c, w) # rest) \<Longrightarrow> stack_sound ((g, c', w) # rest)"
  by simp

text \<open>
  What \<^verbatim>\<open>solvenext\<close> returns on a sound stack: no answer when the stack stands for no
  solution; otherwise one of the solutions the stack stands for, with a sound stack that
  stands for exactly the others.
\<close>

lemma solvenext_enum:
  assumes "solvenext r st = Inr (st', a, r')" and "stack_sound st"
  shows "stack_sound st' \<and>
         (case a of
            None \<Rightarrow> \<forall>S. \<not> remaining st S
          | Some x \<Rightarrow> remaining st x \<and> \<not> remaining st' x \<and>
                      (\<forall>S. remaining st S \<longleftrightarrow> S = x \<or> remaining st' S))"
  using assms
proof (induction r st rule: solvenext_induct)
  case (empty r)
  then show ?case by simp
next
  case (pop r g c w rest)
  have eq: "remaining ((g, c, w) # rest) S \<longleftrightarrow> remaining rest S" for S
    using todo_exhausted [OF pop(1)] by (simp add: remaining_Cons)
  have "stack_sound rest" using pop(4) by simp
  moreover have "solvenext r rest = Inr (st', a, r')" using pop(1,3) by (simp add: solvenext_pop)
  ultimately show ?case using pop(2) unfolding eq by blast
next
  case (raise r g c w rest e)
  then show ?case using solvenext_raise [OF raise(1,2), of rest] by auto
next
  case (found r g c w rest w' r1)
  let ?w1 = "w[fst (g ! c) := Some (snd (g ! c))]"
  have bl: "branch_like w g" and len: "81 \<le> length w"
    and disj: "\<And>S. solution_of w S \<Longrightarrow> \<not> remaining rest S"
    using found(5) by simp_all
  have res: "st' = (g, c + 1, w) # rest" "a = Some w'"
    using found(4) solvenext_found [OF found(1,2,3), of rest] by simp_all
  have sw': "solved w'" using deduce_None_solved(1) [OF found(3)] .
  have sols: "solution_of ?w1 S \<longleftrightarrow> S = w'" for S
    using deduce_solutions [OF found(3), of S] solution_of_solved [OF sw', of S] by simp
  note step = todo_step [OF bl len found(1)]
  have 1: "remaining ((g, c, w) # rest) w'"
    using step(1) [of w'] sols by (simp add: remaining_Cons)
  have "solution_of w w'" using sols option_solution [OF bl len found(1), of w'] by simp
  then have 2: "\<not> remaining ((g, c + 1, w) # rest) w'"
    using step(2) [of w'] sols disj by (simp add: remaining_Cons)
  have 3: "remaining ((g, c, w) # rest) S \<longleftrightarrow> S = w' \<or> remaining ((g, c + 1, w) # rest) S" for S
    using step(1) [of S] sols [of S] by (auto simp: remaining_Cons)
  have "stack_sound ((g, c + 1, w) # rest)" using stack_sound_advance [OF found(5)] .
  then show ?case using res 1 2 3 by simp
next
  case (push r g c w rest gs w' r1)
  let ?w1 = "w[fst (g ! c) := Some (snd (g ! c))]"
  let ?st2 = "(gs, 0, w') # (g, c + 1, w) # rest"
  have bl: "branch_like w g" and len: "81 \<le> length w"
    and disj: "\<And>S. solution_of w S \<Longrightarrow> \<not> remaining rest S"
    using push(6) by simp_all
  have sn: "solvenext r1 ?st2 = Inr (st', a, r')"
    using push(5) solvenext_push [OF push(1,2,3), of rest] by simp
  note step = todo_step [OF bl len push(1)]
  have ok: "branch_ok w' gs" using deduce_branch_ok [OF push(3)] .
  have sols: "solution_of w' S \<longleftrightarrow> solution_of ?w1 S" for S
    using deduce_solutions [OF push(3)] .
  have lw': "81 \<le> length w'"
    using deduce_extends(1) [OF push(3)] len by (simp add: extends_length)
  have td: "todo (gs, 0, w') S \<longleftrightarrow> solution_of ?w1 S" for S
    using branch_ok_cover [OF ok, of S] sols [of S] by (auto simp: todo_def)
  have d2: "\<not> remaining ((g, c + 1, w) # rest) S" if "solution_of w' S" for S
  proof -
    have s1: "solution_of ?w1 S" using that sols by simp
    then have "solution_of w S" using option_solution [OF bl len push(1)] by simp
    then show ?thesis using step(2) [OF s1] disj by (simp add: remaining_Cons)
  qed
  have sound2: "stack_sound ?st2"
    using branch_ok_like [OF ok] lw' d2 stack_sound_advance [OF push(6)] by simp
  have same: "remaining ?st2 S \<longleftrightarrow> remaining ((g, c, w) # rest) S" for S
    using td [of S] step(1) [of S] by (auto simp: remaining_Cons)
  from push(4) [OF sn sound2] show ?case unfolding same .
qed

lemma solveboard_enum:
  assumes "solveboard r b = Inr (st, a, r')"
  shows "stack_sound st \<and>
         (case a of
            None \<Rightarrow> \<forall>S. \<not> solution_of b S
          | Some x \<Rightarrow> solution_of b x \<and> \<not> remaining st x \<and>
                      (\<forall>S. solution_of b S \<longleftrightarrow> S = x \<or> remaining st S))"
proof (cases "deduce r b")
  case (Inl e)
  then show ?thesis using assms by (simp add: solveboard_def)
next
  case (Inr res)
  obtain g w r1 where res: "res = (g, w, r1)" by (cases res)
  note d = Inr [unfolded res]
  show ?thesis
  proof (cases g)
    case None
    then have "solved w" using deduce_None_solved(1) d by blast
    then have "solution_of b S \<longleftrightarrow> S = w" for S
      using deduce_solutions [OF d, of S] solution_of_solved [of w S] by simp
    moreover have "st = []" "a = Some w" using assms d None by (simp_all add: solveboard_def)
    ultimately show ?thesis by simp
  next
    case (Some gs)
    have ok: "branch_ok w gs" using deduce_branch_ok d Some by blast
    have lw: "81 \<le> length w"
      using deduce_extends [OF d] by (simp add: extends_length)
    have sound: "stack_sound [(gs, 0, w)]" using branch_ok_like [OF ok] lw by simp
    have rem: "remaining [(gs, 0, w)] S \<longleftrightarrow> solution_of b S" for S
      using branch_ok_cover [OF ok, of S] deduce_solutions [OF d, of S]
      by (auto simp: remaining_Cons todo_def)
    have "solvenext r1 [(gs, 0, w)] = Inr (st, a, r')"
      using assms d Some by (simp add: solveboard_def)
    from solvenext_enum [OF this sound] show ?thesis unfolding rem .
  qed
qed

section \<open>checkpuzzle decides unique solvability\<close>

lemma checkpuzzle_unique:
  assumes pb: "length pb = 81" and B: "length B = 81" and sol: "solution_of pb B"
  shows "\<exists>v r'. checkpuzzle r pb (Some B) = Inr (v, r') \<and>
           (v \<noteq> - 1 \<longleftrightarrow> (\<forall>S. solution_of pb S \<longrightarrow> S = B))"
proof -
  have len: "81 \<le> length pb" using pb by simp
  obtain st a r1 where sb: "solveboard r pb = Inr (st, a, r1)" and wf: "stack_wf pb st"
    using solveboard_wf [OF len, of r] by blast
  note en = solveboard_enum [OF sb]
  obtain x where a: "a = Some x" using en sol by (cases a) auto
  have x: "solution_of pb x" "\<not> remaining st x" "\<And>S. solution_of pb S \<longleftrightarrow> S = x \<or> remaining st S"
    using en a by simp_all
  have lx: "length x = 81" using solution_ofD(2) [OF x(1)] pb by (simp add: extends_length)
  have bm: "boardmatches B x = Inr (B = x)"
  proof -
    have "(\<forall>i<81. B ! i = x ! i) \<longleftrightarrow> B = x" using B lx by (auto intro: nth_equalityI)
    then show ?thesis using boardmatches_eq [of B x] B lx by simp
  qed
  obtain st' second r2 where sn: "solvenext r1 st = Inr (st', second, r2)"
    using solvenext_wf [OF wf len, of r1] by blast
  have sound: "stack_sound st" using en by simp
  note en2 = solvenext_enum [OF sn sound]
  show ?thesis
  proof (cases "B = x")
    case False
    then have "checkpuzzle r pb (Some B) = Inr (- 1, r1)" using sb a bm by (simp add: checkpuzzle_def)
    moreover have "\<not> (\<forall>S. solution_of pb S \<longrightarrow> S = B)" using x(1) False by blast
    ultimately show ?thesis by simp
  next
    case True
    show ?thesis
    proof (cases second)
      case None
      then have "checkpuzzle r pb (Some B) = Inr (int (length st), r2)"
        using sb a bm True sn by (simp add: checkpuzzle_def)
      moreover have "\<forall>S. solution_of pb S \<longrightarrow> S = B" using en2 None x(3) True by simp
      ultimately show ?thesis by simp
    next
      case (Some y)
      then have "checkpuzzle r pb (Some B) = Inr (- 1, r2)"
        using sb a bm True sn by (simp add: checkpuzzle_def)
      moreover have "remaining st y" using en2 Some by simp
      then have "solution_of pb y" "y \<noteq> x" using x(2,3) by auto
      then have "\<not> (\<forall>S. solution_of pb S \<longrightarrow> S = B)" using True by blast
      ultimately show ?thesis by simp
    qed
  qed
qed

section \<open>Puzzles cut from a solved board\<close>

text \<open>The board that shows the cells of \<open>B\<close> at the positions \<open>A\<close> and nothing else.\<close>

definition clue_board :: "board \<Rightarrow> nat set \<Rightarrow> board" where
  "clue_board B A = map (\<lambda>p. if p \<in> A then B ! p else None) [0..<81]"

lemma length_clue_board [simp]: "length (clue_board B A) = 81"
  by (simp add: clue_board_def)

lemma nth_clue_board: "p < 81 \<Longrightarrow> clue_board B A ! p = (if p \<in> A then B ! p else None)"
  by (simp add: clue_board_def)

text \<open>The entries of a puzzle list: distinct positions, each with the cell of \<open>B\<close>.\<close>

definition entries_ok :: "board \<Rightarrow> entry list \<Rightarrow> bool" where
  "entries_ok B es \<longleftrightarrow> distinct (map fst es) \<and> (\<forall>e \<in> set es. fst e < 81 \<and> snd e = B ! fst e)"

lemma place_nth:
  "length b = 81 \<Longrightarrow> \<forall>e \<in> set es. fst e < 81 \<and> snd e = B ! fst e \<Longrightarrow>
   \<exists>b'. place es b = Inr b' \<and> length b' = 81 \<and>
        (\<forall>q<81. b' ! q = (if q \<in> fst ` set es then B ! q else b ! q))"
proof (induction es arbitrary: b)
  case Nil
  then show ?case by simp
next
  case (Cons e es)
  obtain p v where e: "e = (p, v)" by (cases e)
  have p: "p < 81" "v = B ! p" using Cons.prems(2) e by auto
  have l: "length (b[p := v]) = 81" using Cons.prems(1) by simp
  obtain b' where b': "place es (b[p := v]) = Inr b'" "length b' = 81"
    "\<forall>q<81. b' ! q = (if q \<in> fst ` set es then B ! q else b[p := v] ! q)"
    using Cons.IH [OF l] Cons.prems(2) by auto
  have "place (e # es) b = Inr b'" using b'(1) e p(1) Cons.prems(1) by simp
  moreover have "\<forall>q<81. b' ! q = (if q \<in> fst ` set (e # es) then B ! q else b ! q)"
    using b'(3) e p Cons.prems(1) by (auto simp: nth_list_update)
  ultimately show ?case using b'(2) by blast
qed

lemma boardforentries_clue_board:
  assumes "\<forall>e \<in> set es. fst e < 81 \<and> snd e = B ! fst e"
  shows "boardforentries es = Inr (clue_board B (fst ` set es))"
proof -
  obtain b' where b': "place es (replicate 81 None) = Inr b'" "length b' = 81"
    "\<forall>q<81. b' ! q = (if q \<in> fst ` set es then B ! q else replicate 81 None ! q)"
    using place_nth [of "replicate 81 None" es B] assms by auto
  have "b' = clue_board B (fst ` set es)"
    using b'(2,3) by (intro nth_equalityI) (auto simp: nth_clue_board)
  then show ?thesis using b'(1) by (simp add: boardforentries_def)
qed

definition unique_for :: "board \<Rightarrow> nat set \<Rightarrow> bool" where
  "unique_for B A \<longleftrightarrow> (\<forall>S. solution_of (clue_board B A) S \<longrightarrow> S = B)"

lemma clue_board_extends:
  assumes "solved B" and "A \<subseteq> A'"
  shows "extends (clue_board B A) (clue_board B A')"
  unfolding extends_def
proof (intro conjI allI impI)
  show "length (clue_board B A') = length (clue_board B A)" by simp
next
  fix p assume d: "clue_board B A' ! p \<noteq> clue_board B A ! p"
  have p: "p < 81"
  proof (rule ccontr)
    assume "\<not> p < 81"
    then have "clue_board B A' ! p = clue_board B A ! p"
      by (metis length_clue_board nth_equalityI linorder_not_less nth_append_length_plus
          append_Nil2 le_Suc_ex)
    then show False using d by simp
  qed
  then show "p < 81" .
  have "p \<in> A' \<and> p \<notin> A" using d p assms(2) by (auto simp: nth_clue_board split: if_splits)
  then show "clue_board B A ! p = None" and "clue_board B A' ! p \<noteq> None"
    using p solved_filled [OF assms(1) p] by (simp_all add: nth_clue_board)
qed

lemma solved_extends_clue_board:
  assumes "solved B" and "length B = 81"
  shows "extends (clue_board B A) B"
proof -
  have "clue_board B {..<81} = B"
    using assms(2) by (intro nth_equalityI) (auto simp: nth_clue_board)
  moreover have "extends (clue_board B (A \<inter> {..<81})) (clue_board B {..<81})"
    using clue_board_extends [OF assms(1)] by simp
  moreover have "clue_board B (A \<inter> {..<81}) = clue_board B A"
    by (intro nth_equalityI) (auto simp: nth_clue_board)
  ultimately show ?thesis by simp
qed

lemma solution_of_clue_board:
  "solved B \<Longrightarrow> length B = 81 \<Longrightarrow> solution_of (clue_board B A) B"
  by (simp add: solution_of_def solved_extends_clue_board)

lemma unique_for_mono:
  assumes "solved B" and "A \<subseteq> A'" and "unique_for B A"
  shows "unique_for B A'"
  using assms(3) solution_of_mono [OF clue_board_extends [OF assms(1,2)]]
  unfolding unique_for_def by blast

lemma checkpuzzle_clue_board:
  assumes "solved B" and "length B = 81"
  shows "\<exists>v r'. checkpuzzle r (clue_board B A) (Some B) = Inr (v, r') \<and>
           (v \<noteq> - 1 \<longleftrightarrow> unique_for B A)"
  using checkpuzzle_unique [OF _ assms(2) solution_of_clue_board [OF assms], of A r]
  by (simp add: unique_for_def)

subsection \<open>deduce never leaves a single empty cell\<close>

definition single_hole :: "board \<Rightarrow> bool" where
  "single_hole d \<longleftrightarrow> (\<exists>q<81. d ! q = None \<and> (\<forall>p<81. p \<noteq> q \<longrightarrow> d ! p \<noteq> None))"

lemma naked_stuck_two:
  assumes "naked al ps s = Continue s'" and "d_stuck s'"
    and "set ps \<subseteq> {..<81}" and "81 \<le> length (d_board s)"
  shows "\<forall>p \<in> set ps. d_board s ! p = None \<longrightarrow> 2 \<le> length (listbits (al ! p))"
  using assms
proof (induction ps arbitrary: s)
  case Nil
  then show ?case by simp
next
  case (Cons pos ps)
  have ps: "set ps \<subseteq> {..<81}" using Cons.prems by auto
  let ?nums = "listbits (al ! pos)"
  let ?s1 = "s\<lparr>d_board := (d_board s)[pos := Some (?nums ! 0)], d_stuck := False\<rparr>"
  let ?s2 = "offer (map (\<lambda>n. (pos, n)) ?nums) s"
  have stuck: "d_stuck s"
    using naked_progress [OF Cons.prems(3,4), of al] Cons.prems(1,2) progress_stuck by fastforce
  show ?case
  proof (cases "d_board s ! pos = None")
    case False
    then have "naked al ps s = Continue s'" using Cons.prems(1) by auto
    from Cons.IH [OF this Cons.prems(2) ps Cons.prems(4)] False show ?thesis by auto
  next
    case True
    have n0: "length ?nums \<noteq> 0" using True Cons.prems(1) by auto
    have n1: "length ?nums \<noteq> 1"
    proof
      assume "length ?nums = 1"
      then have e: "naked al ps ?s1 = Continue s'" using True Cons.prems(1) by simp
      have "progress al ?s1 (flow_state (naked al ps ?s1))"
        using naked_progress [OF ps, of ?s1 al] Cons.prems(4) by simp
      then have "d_stuck ?s1" using e Cons.prems(2) progress_stuck by fastforce
      then show False by simp
    qed
    have e: "naked al ps ?s2 = Continue s'" using True n0 n1 stuck Cons.prems(1) by simp
    have "81 \<le> length (d_board ?s2)" using Cons.prems(4) by simp
    from Cons.IH [OF e Cons.prems(2) ps this] len_ge2 [OF n0 n1] show ?thesis by simp
  qed
qed

lemma deduce_final_sound:
  "deduce r b = Inr (g, b', r') \<Longrightarrow> solution_of b S \<Longrightarrow>
   \<exists>r0 b0. solution_of b0 S \<and> deduce_iter r0 b0 = Inr (Returns g b' r')"
proof (induction r b rule: deduce.induct)
  case (1 r board)
  show ?case
  proof (cases "deduce_iter r board")
    case (Inl e)
    then show ?thesis using "1.prems"(1) by (simp add: deduce.simps [of r board])
  next
    case (Inr res)
    show ?thesis
    proof (cases res)
      case (Returns g1 b1 r1)
      then have "g1 = g \<and> b1 = b' \<and> r1 = r'"
        using "1.prems"(1) Inr by (simp add: deduce.simps [of r board])
      then show ?thesis using Inr Returns "1.prems"(2) by blast
    next
      case (Repeat b1 r1)
      then have d: "deduce r1 b1 = Inr (g, b', r')"
        using "1.prems"(1) Inr by (simp add: deduce.simps [of r board])
      have "solution_of b1 S" using deduce_iter_sound(1) [OF Inr "1.prems"(2)] Repeat by simp
      from "1.IH" [OF Inr Repeat d this] show ?thesis .
    qed
  qed
qed

lemma stuck_iteration_two_candidates:
  assumes "deduce_iter r b = Inr (Returns (Some g) b' r')" and "g \<noteq> []"
  obtains al nd where "figurebits b = Inr (al, nd)" "b' = b"
    "\<forall>p<81. b ! p = None \<longrightarrow> 2 \<le> length (listbits (al ! p))"
  using assms(1)
proof (cases rule: deduce_iter_cases)
  case (branch al nd s al' nd' s' g0 g1 r1)
  have up: "set [0..<81] \<subseteq> {..<81}" by auto
  have len: "81 \<le> length b" using figurebits_Inr(1) [OF branch(1)] .
  have p1: "progress al (dinit r b) s"
    using naked_progress [OF up, of "dinit r b" al] len branch(2) by simp
  have "81 \<le> length (d_board s)" using figurebits_Inr(1) [OF branch(3)] .
  from hidden_progress [OF all_lines_lt9 this, of al' nd'] branch(4)
  have p2: "progress al' s s'" by simp
  have s: "d_stuck s" "d_board s' = d_board s" using progress_stuck [OF p2 branch(5)] by auto
  then have b: "d_board s = b" using progress_stuck [OF p1] by simp
  have "\<forall>p \<in> set [0..<81]. d_board (dinit r b) ! p = None \<longrightarrow> 2 \<le> length (listbits (al ! p))"
    using naked_stuck_two [OF branch(2) s(1) up] len by simp
  then have "\<forall>p<81. b ! p = None \<longrightarrow> 2 \<le> length (listbits (al ! p))" by simp
  then show ?thesis using that [OF branch(1)] branch(8) s b by simp
qed (use assms(2) in auto)

lemma two_candidates_not_single_hole:
  assumes fig: "figurebits b = Inr (al, nd)" and sol: "solution_of b B"
    and two: "\<forall>p<81. b ! p = None \<longrightarrow> 2 \<le> length (listbits (al ! p))"
  shows "\<not> single_hole b"
proof
  assume "single_hole b"
  then obtain q where q: "q < 81" "b ! q = None" "\<forall>p<81. p \<noteq> q \<longrightarrow> b ! p \<noteq> None"
    unfolding single_hole_def by blast
  have SB: "solved B" and ext: "extends b B" using sol by (simp_all add: solution_of_def)
  have lb: "q < length b" using figurebits_Inr(1) [OF fig] q(1) by simp
  let ?l = "(0::nat, q div 9)"
  have row: "?l \<in> set axis_lines" "q mod 9 < 9" "posfor (q div 9) (q mod 9) 0 = q"
    using row_covers [OF q(1)] by simp_all
  have "q mod 9 \<in> {0..<9}" by simp
  then have "q \<in> (\<lambda>y. posfor (q div 9) y 0) ` {0..<9}" using row(3) by (metis imageI)
  then have on: "on_line q ?l" unfolding on_line_def by simp
  have only: "B ! q = Some m" if m: "m \<in> set (listbits (al ! q))" for m
  proof -
    have m9: "m < 9" and "bit (al ! q) m" using m by (simp_all add: set_listbits)
    then have "bit (axismissing b (snd ?l) (fst ?l)) m"
      using figurebits_Inr(4) [OF fig lb] row(1) on by blast
    then have miss: "\<forall>y<9. b ! posfor (q div 9) y 0 \<noteq> Some m"
      using m9 by (simp add: bit_axismissing)
    obtain y where y: "y < 9" "B ! posfor (q div 9) y 0 = Some m"
      using solved_line [OF SB row(1) m9] by auto
    show ?thesis
    proof (cases "posfor (q div 9) y 0 = q")
      case True
      then show ?thesis using y(2) by simp
    next
      case False
      let ?p = "posfor (q div 9) y 0"
      have p81: "?p < 81" using posfor_less [OF _ y(1), of "q div 9" 0] q(1) by simp
      then obtain k where "b ! ?p = Some k" using q(3) False by auto
      moreover from this have "B ! ?p = Some k" using extends_filled [OF ext] by blast
      ultimately show ?thesis using y miss by auto
    qed
  qed
  have "2 \<le> length (listbits (al ! q))" using two q by simp
  then obtain m1 m2 rest where "listbits (al ! q) = m1 # m2 # rest"
    by (cases "listbits (al ! q)"; cases "tl (listbits (al ! q))") auto
  moreover from this have "m1 \<noteq> m2" using distinct_listbits [of "al ! q"] by auto
  ultimately show False using only [of m1] only [of m2] by simp
qed

lemma deduce_not_single_hole:
  assumes "deduce r b = Inr (g, b', r')" and "solution_of b B"
  shows "\<not> single_hole b'"
proof -
  obtain r0 b0 where f: "solution_of b0 B" "deduce_iter r0 b0 = Inr (Returns g b' r')"
    using deduce_final_sound [OF assms] by blast
  show ?thesis
  proof (cases g)
    case None
    then have "solved b'" using deduce_iter_solved(2) f(2) deduce_iter_solved(1) by metis
    then show ?thesis using solved_filled unfolding single_hole_def by blast
  next
    case (Some gs)
    have "gs \<noteq> []" using deduce_iter_sound(2) [OF f(2) f(1)] Some by blast
    with f(2) Some obtain al nd where "figurebits b0 = Inr (al, nd)" "b' = b0"
      "\<forall>p<81. b0 ! p = None \<longrightarrow> 2 \<le> length (listbits (al ! p))"
      using stuck_iteration_two_candidates by blast
    then show ?thesis using two_candidates_not_single_hole f(1) by blast
  qed
qed

subsection \<open>The first loop of makepuzzle\<close>

text \<open>
  What holds of \<^verbatim>\<open>puzzle\<close> and \<^verbatim>\<open>deduced\<close> when the positions \<open>V\<close> have been visited: the
  entries are cells of \<open>B\<close> at visited positions, every visited cell of \<^verbatim>\<open>deduced\<close> is
  filled, every solution of the entries extends \<^verbatim>\<open>deduced\<close>, and \<^verbatim>\<open>deduced\<close> does not
  have exactly one empty cell.
\<close>

definition reveal_inv :: "board \<Rightarrow> nat set \<Rightarrow> entry list \<Rightarrow> board \<Rightarrow> bool" where
  "reveal_inv B V puzzle deduced \<longleftrightarrow>
     entries_ok B puzzle \<and> length deduced = 81 \<and> fst ` set puzzle \<subseteq> V \<and>
     (\<forall>p \<in> V. deduced ! p \<noteq> None) \<and>
     (\<forall>S. solution_of (clue_board B (fst ` set puzzle)) S \<longrightarrow> extends deduced S) \<and>
     \<not> single_hole deduced"

lemma reveal_inv_skip:
  "reveal_inv B V puzzle deduced \<Longrightarrow> deduced ! pos \<noteq> None \<Longrightarrow>
   reveal_inv B (insert pos V) puzzle deduced"
  unfolding reveal_inv_def by auto

lemma reveal_inv_add:
  assumes B: "solved B" "length B = 81"
    and inv: "reveal_inv B V puzzle deduced" and pos: "pos < 81" "deduced ! pos = None"
    and d: "deduce r (deduced[pos := B ! pos]) = Inr (g, deduced', r')"
  shows "reveal_inv B (insert pos V) (puzzle @ [(pos, B ! pos)]) deduced'"
proof -
  let ?A = "fst ` set puzzle"
  let ?d1 = "deduced[pos := B ! pos]"
  obtain dg where dg: "B ! pos = Some dg" using solved_digit [OF B(1) pos(1)] by blast
  have ok: "entries_ok B puzzle" and ld: "length deduced = 81" and sub: "?A \<subseteq> V"
    and filled: "\<forall>p \<in> V. deduced ! p \<noteq> None"
    and snd: "\<And>S. solution_of (clue_board B ?A) S \<Longrightarrow> extends deduced S"
    using inv unfolding reveal_inv_def by blast+
  have notin: "pos \<notin> ?A" using sub filled pos(2) by blast
  have e1: "extends ?d1 deduced'" using deduce_extends(1) [OF d] .
  have 1: "entries_ok B (puzzle @ [(pos, B ! pos)])"
    using ok notin pos(1) unfolding entries_ok_def by auto
  have 2: "length deduced' = 81" using e1 ld by (simp add: extends_length)
  have 3: "fst ` set (puzzle @ [(pos, B ! pos)]) \<subseteq> insert pos V" using sub by auto
  have 4: "\<forall>p \<in> insert pos V. deduced' ! p \<noteq> None"
  proof
    fix p assume "p \<in> insert pos V"
    then have "?d1 ! p \<noteq> None" using filled dg pos(1) ld by (cases "p = pos") auto
    then show "deduced' ! p \<noteq> None" using extends_filled [OF e1] by fastforce
  qed
  have step: "solution_of ?d1 S" if s: "solution_of (clue_board B (insert pos ?A)) S" for S
  proof -
    have "solution_of (clue_board B ?A) S"
      using solution_of_mono [OF clue_board_extends [OF B(1)] s] by blast
    then have e: "extends deduced S" by (rule snd)
    have "clue_board B (insert pos ?A) ! pos = Some dg" using pos(1) dg by (simp add: nth_clue_board)
    then have "S ! pos = Some dg" using extends_filled [OF solution_ofD(2) [OF s]] by blast
    then have "extends ?d1 S" using extends_assign [OF e _ pos(1)] ld pos(1) dg by simp
    then show ?thesis using solution_ofD(1) [OF s] by (simp add: solution_of_def)
  qed
  have 5: "\<forall>S. solution_of (clue_board B (fst ` set (puzzle @ [(pos, B ! pos)]))) S \<longrightarrow> extends deduced' S"
    using step deduce_sound(1) [OF d] solution_ofD(2) by simp
  have "solution_of ?d1 B" using step solution_of_clue_board [OF B] by blast
  then have 6: "\<not> single_hole deduced'" using deduce_not_single_hole [OF d] by blast
  show ?thesis unfolding reveal_inv_def using 1 2 3 4 5 6 by blast
qed

lemma reveal_correct:
  assumes B: "solved B" "length B = 81"
  shows "reveal_inv B V puzzle deduced \<Longrightarrow> set order \<subseteq> {..<81} \<Longrightarrow>
         \<exists>puzzle' deduced' r'. reveal B order puzzle deduced r = Inr (puzzle', deduced', r') \<and>
            reveal_inv B (V \<union> set order) puzzle' deduced'"
proof (induction order arbitrary: V puzzle deduced r)
  case Nil
  then show ?case by simp
next
  case (Cons pos order)
  have pos: "pos < 81" and ord: "set order \<subseteq> {..<81}" using Cons.prems(2) by auto
  have ld: "length deduced = 81" using Cons.prems(1) by (simp add: reveal_inv_def)
  have un: "insert pos V \<union> set order = V \<union> set (pos # order)" by auto
  show ?case
  proof (cases "deduced ! pos = None")
    case False
    then have "reveal B (pos # order) puzzle deduced r = reveal B order puzzle deduced r"
      using pos ld by auto
    then show ?thesis
      using Cons.IH [OF reveal_inv_skip [OF Cons.prems(1) False] ord, of r] un by simp
  next
    case True
    have "81 \<le> length (deduced[pos := B ! pos])" using ld by simp
    then obtain g deduced' r' where d: "deduce r (deduced[pos := B ! pos]) = Inr (g, deduced', r')"
      using deduce_ok by blast
    then have "reveal B (pos # order) puzzle deduced r =
        reveal B order (puzzle @ [(pos, B ! pos)]) deduced' r'"
      using True pos ld B(2) by simp
    then show ?thesis
      using Cons.IH [OF reveal_inv_add [OF B Cons.prems(1) pos True d] ord, of r'] un by simp
  qed
qed

lemma reveal_append:
  "reveal B (xs @ ys) puzzle deduced r =
     (case reveal B xs puzzle deduced r of
        Inl e \<Rightarrow> Inl e
      | Inr (pz, dd, r') \<Rightarrow> reveal B ys pz dd r')"
proof (induction xs arbitrary: puzzle deduced r)
  case Nil
  then show ?case by simp
next
  case (Cons x xs)
  then show ?case by (simp split: sum.splits prod.splits)
qed

lemma reveal_inv_start: "reveal_inv B {} [] (replicate 81 None)"
proof -
  have "\<not> single_hole (replicate 81 None)"
  proof
    assume "single_hole (replicate 81 None)"
    then obtain q where q: "q < 81" "\<forall>p<81. p \<noteq> q \<longrightarrow> replicate 81 None ! p \<noteq> (None :: cell)"
      unfolding single_hole_def by blast
    define p :: nat where "p = (if q = 0 then 1 else 0)"
    have "p < 81" "p \<noteq> q" by (simp_all add: p_def)
    then show False using q(2) by simp
  qed
  moreover have "clue_board B {} = replicate 81 None"
    by (intro nth_equalityI) (simp_all add: nth_clue_board)
  ultimately show ?thesis
    unfolding reveal_inv_def by (simp add: entries_ok_def solution_of_def)
qed

lemma filled_extends_eq:
  assumes "length d = 81" and "\<forall>p<81. d ! p \<noteq> None" and "extends d S"
  shows "S = d"
proof (rule nth_equalityI)
  show "length S = length d" using assms(3) by (rule extends_length)
next
  fix p assume "p < length S"
  show "S ! p = d ! p" using assms(2,3) unfolding extends_def by metis
qed

lemma reveal_inv_unique:
  assumes B: "solved B" "length B = 81" and inv: "reveal_inv B {..<81} puzzle deduced"
  shows "unique_for B (fst ` set puzzle)"
proof -
  have ld: "length deduced = 81" and f: "\<forall>p<81. deduced ! p \<noteq> None"
    and snd: "\<And>S. solution_of (clue_board B (fst ` set puzzle)) S \<Longrightarrow> extends deduced S"
    using inv unfolding reveal_inv_def by auto
  have "B = deduced" using filled_extends_eq [OF ld f snd] solution_of_clue_board [OF B] by blast
  then show ?thesis unfolding unique_for_def using filled_extends_eq [OF ld f snd] by blast
qed

text \<open>The first loop over all 81 positions in any order.\<close>

lemma reveal_all:
  assumes B: "solved B" "length B = 81" and perm: "mset order = mset [0..<81]"
  shows "\<exists>puzzle deduced r' q. reveal B order [] (replicate 81 None) r = Inr (puzzle, deduced, r') \<and>
           entries_ok B puzzle \<and> unique_for B (fst ` set puzzle) \<and> q < 81 \<and> q \<notin> fst ` set puzzle"
proof -
  have so: "set order = {..<81}" using mset_eq_setD [OF perm] by auto
  have dist: "distinct order" using mset_eq_imp_distinct_iff [OF perm] by simp
  have "length order = 81" using mset_eq_length [OF perm] by simp
  then have "order \<noteq> []" by auto
  then obtain ps q where o: "order = ps @ [q]" by (metis rev_exhaust)
  have q: "q < 81" "q \<notin> set ps" "set ps \<subseteq> {..<81}" "insert q (set ps) = {..<81}"
    using so dist o by auto
  obtain pz dd r1 where r1: "reveal B ps [] (replicate 81 None) r = Inr (pz, dd, r1)"
    and inv1: "reveal_inv B (set ps) pz dd"
    using reveal_correct [OF B reveal_inv_start q(3), of r] by auto
  have filled: "dd ! q \<noteq> None"
  proof
    assume n: "dd ! q = None"
    have "\<forall>p<81. p \<noteq> q \<longrightarrow> dd ! p \<noteq> None"
      using inv1 q(4) unfolding reveal_inv_def by (metis insertE lessThan_iff)
    then have "single_hole dd" unfolding single_hole_def using q(1) n by blast
    then show False using inv1 by (simp add: reveal_inv_def)
  qed
  have ld: "length dd = 81" using inv1 by (simp add: reveal_inv_def)
  have "reveal B [q] pz dd r1 = Inr (pz, dd, r1)" using filled q(1) ld by auto
  then have res: "reveal B order [] (replicate 81 None) r = Inr (pz, dd, r1)"
    unfolding o reveal_append using r1 by simp
  have "reveal_inv B (insert q (set ps)) pz dd" using reveal_inv_skip [OF inv1 filled] .
  then have inv: "reveal_inv B {..<81} pz dd" using q(4) by simp
  have "fst ` set pz \<subseteq> set ps" using inv1 by (simp add: reveal_inv_def)
  then have "q \<notin> fst ` set pz" using q(2) by blast
  moreover have "entries_ok B pz" using inv by (simp add: reveal_inv_def)
  ultimately show ?thesis using res reveal_inv_unique [OF B inv] q(1) by blast
qed

subsection \<open>The second loop of makepuzzle\<close>

lemma entries_ok_mset:
  assumes "mset es' = mset es" and "entries_ok B es"
  shows "entries_ok B es'"
proof -
  have "mset (map fst es') = mset (map fst es)" using assms(1) by simp
  then have "distinct (map fst es') = distinct (map fst es)" by (rule mset_eq_imp_distinct_iff)
  moreover have "set es' = set es" using assms(1) by (rule mset_eq_setD)
  ultimately show ?thesis using assms(2) unfolding entries_ok_def by simp
qed

text \<open>
  When the loop is at index \<open>m - 1\<close>, the list is \<open>pre @ kept\<close>: the \<open>m\<close> entries of \<open>pre\<close> are
  still to be tried, and those of \<open>kept\<close> have been put back at the end, each one because
  the puzzle without it was rejected.
\<close>

lemma prune_correct:
  assumes B: "solved B" "length B = 81"
  shows "length pre = m \<Longrightarrow> entries_ok B (pre @ kept) \<Longrightarrow>
         unique_for B (fst ` set (pre @ kept)) \<Longrightarrow>
         \<forall>e \<in> set kept. \<not> unique_for B (fst ` set (pre @ kept) - {fst e}) \<Longrightarrow>
         \<exists>final r'. prune B (rev [0..<m]) (pre @ kept) r = Inr (final, r') \<and>
            entries_ok B final \<and> set final \<subseteq> set (pre @ kept) \<and>
            unique_for B (fst ` set final) \<and>
            (\<forall>e \<in> set final. \<not> unique_for B (fst ` set final - {fst e}))"
proof (induction m arbitrary: pre kept r)
  case 0
  then show ?case by simp
next
  case (Suc i)
  obtain pre' e where pre: "pre = pre' @ [e]"
    using Suc.prems(1) by (metis length_Suc_conv_rev)
  have lp: "length pre' = i" using Suc.prems(1) pre by simp
  let ?A = "fst ` set (pre @ kept)"
  let ?less = "pre' @ kept"
  have tk: "take i (pre @ kept) = pre'" "drop (Suc i) (pre @ kept) = kept" "(pre @ kept) ! i = e"
    using lp pre by (simp_all add: nth_append)
  have ok: "entries_ok B (pre' @ [e] @ kept)" using Suc.prems(2) pre by simp
  have okl: "entries_ok B ?less" using ok unfolding entries_ok_def by auto
  have ne: "fst e \<notin> fst ` set pre'" "fst e \<notin> fst ` set kept"
    using ok unfolding entries_ok_def by auto
  have "?A = insert (fst e) (fst ` set pre' \<union> fst ` set kept)"
    unfolding pre by (simp add: image_Un)
  moreover have "fst ` set ?less = fst ` set pre' \<union> fst ` set kept" by (simp add: image_Un)
  ultimately have A': "fst ` set ?less = ?A - {fst e}" using ne by simp
  have bf: "boardforentries ?less = Inr (clue_board B (fst ` set ?less))"
    using okl by (intro boardforentries_clue_board) (simp add: entries_ok_def)
  obtain v r1 where cp: "checkpuzzle r (clue_board B (fst ` set ?less)) (Some B) = Inr (v, r1)"
    and v: "v \<noteq> - 1 \<longleftrightarrow> unique_for B (fst ` set ?less)"
    using checkpuzzle_clue_board [OF B] by blast
  have i: "\<not> i \<ge> length (pre @ kept)" using lp pre by simp
  have rv: "rev [0..<Suc i] = i # rev [0..<i]" by simp
  have unf: "prune B (rev [0..<Suc i]) (pre @ kept) r =
      (if v = - 1 then prune B (rev [0..<i]) (pre' @ kept @ [e]) r1
       else prune B (rev [0..<i]) (pre' @ kept) r1)"
    unfolding rv prune.simps tk using i bf cp by simp
  show ?case
  proof (cases "v = - 1")
    case True
    have s: "set (pre' @ kept @ [e]) = set (pre @ kept)" using pre by auto
    have 1: "entries_ok B (pre' @ kept @ [e])"
      by (rule entries_ok_mset [OF _ ok]) simp
    have 2: "unique_for B (fst ` set (pre' @ kept @ [e]))" using Suc.prems(3) unfolding s .
    have "\<not> unique_for B (?A - {fst e})" using v True unfolding A' by simp
    then have 3: "\<forall>k \<in> set (kept @ [e]). \<not> unique_for B (fst ` set (pre' @ kept @ [e]) - {fst k})"
      unfolding s using Suc.prems(4) by simp
    from Suc.IH [OF lp 1 2 3, of r1] show ?thesis unfolding unf s using True by simp
  next
    case False
    have 2: "unique_for B (fst ` set ?less)" using v False by simp
    have 3: "\<forall>k \<in> set kept. \<not> unique_for B (fst ` set ?less - {fst k})"
    proof
      fix k assume k: "k \<in> set kept"
      have "fst ` set ?less - {fst k} \<subseteq> ?A - {fst k}" unfolding A' by blast
      then show "\<not> unique_for B (fst ` set ?less - {fst k})"
        using unique_for_mono [OF B(1)] Suc.prems(4) k by blast
    qed
    have "set ?less \<subseteq> set (pre @ kept)" using pre by auto
    with Suc.IH [OF lp okl 2 3, of r1] show ?thesis unfolding unf using False by auto
  qed
qed

subsection \<open>makepuzzle\<close>

text \<open>The number of filled cells of a board.\<close>

definition filled :: "board \<Rightarrow> nat" where
  "filled b = length (filter (\<lambda>c. c \<noteq> None) b)"

lemma filled_solved: "solved B \<Longrightarrow> length B = 81 \<Longrightarrow> filled B = 81"
  unfolding filled_def using solved_filled [of B]
  by (subst filter_True) (auto simp: in_set_conv_nth)

lemma filled_hole: "q < length P \<Longrightarrow> P ! q = None \<Longrightarrow> filled P < length P"
  unfolding filled_def using nth_mem [of q P] by (intro length_filter_less [of None]) auto

lemma clue_board_remove:
  "(clue_board B A)[p := None] = clue_board B (A - {p})"
proof (rule nth_equalityI)
  show "length ((clue_board B A)[p := None]) = length (clue_board B (A - {p}))" by simp
next
  fix i assume "i < length ((clue_board B A)[p := None])"
  then have i: "i < 81" by simp
  show "(clue_board B A)[p := None] ! i = clue_board B (A - {p}) ! i"
  proof (cases "i = p")
    case True
    then show ?thesis using i by (simp add: nth_clue_board)
  next
    case False
    then show ?thesis using i by (simp add: nth_clue_board)
  qed
qed

text \<open>
  The result of makepuzzle is the board of a set \<open>F\<close> of clues of \<open>B\<close> that determines \<open>B\<close>,
  leaves some cell out, and no longer determines \<open>B\<close> when any one clue is taken away.
\<close>

lemma makepuzzle_clues:
  assumes B: "solved B" "length B = 81"
  shows "\<exists>F r' q. makepuzzle r B = Inr (clue_board B F, r') \<and> F \<subseteq> {..<81} \<and>
           q < 81 \<and> q \<notin> F \<and> unique_for B F \<and> (\<forall>p \<in> F. \<not> unique_for B (F - {p}))"
proof -
  obtain order r1 where sh: "shuffle r [0..<81] = (order, r1)" by (cases "shuffle r [0..<81]")
  have perm: "mset order = mset [0..<81]" using mset_shuffle [of r "[0..<81]"] sh by simp
  obtain puzzle deduced r2 q where
    rv: "reveal B order [] (replicate 81 None) r1 = Inr (puzzle, deduced, r2)"
    and ok: "entries_ok B puzzle" and un: "unique_for B (fst ` set puzzle)"
    and q: "q < 81" "q \<notin> fst ` set puzzle"
    using reveal_all [OF B perm, of r1] by blast
  obtain puzzle' r3 where sh2: "shuffle r2 puzzle = (puzzle', r3)" by (cases "shuffle r2 puzzle")
  have perm2: "mset puzzle' = mset puzzle" using mset_shuffle [of r2 puzzle] sh2 by simp
  have set2: "set puzzle' = set puzzle" using perm2 by (rule mset_eq_setD)
  have ok2: "entries_ok B (puzzle' @ [])" using entries_ok_mset [OF perm2 ok] by simp
  have un2: "unique_for B (fst ` set (puzzle' @ []))" using un set2 by simp
  obtain final r4 where pr: "prune B (rev [0..<length puzzle']) (puzzle' @ []) r3 = Inr (final, r4)"
    and okf: "entries_ok B final" and sub: "set final \<subseteq> set (puzzle' @ [])"
    and unf: "unique_for B (fst ` set final)"
    and mn: "\<forall>e \<in> set final. \<not> unique_for B (fst ` set final - {fst e})"
    using prune_correct [OF B refl ok2 un2, of r3] by auto
  have bf: "boardforentries final = Inr (clue_board B (fst ` set final))"
    using okf by (intro boardforentries_clue_board) (simp add: entries_ok_def)
  have mk: "makepuzzle r B = Inr (clue_board B (fst ` set final), r4)"
    unfolding makepuzzle_def using sh rv sh2 pr bf by simp
  have "fst ` set final \<subseteq> {..<81}" using okf unfolding entries_ok_def by auto
  moreover have "q \<notin> fst ` set final" using q(2) sub set2 by auto
  moreover have "\<forall>p \<in> fst ` set final. \<not> unique_for B (fst ` set final - {p})" using mn by auto
  ultimately show ?thesis using mk q(1) unf by blast
qed

subsection \<open>Another solved board\<close>

definition example_other :: board where
  "example_other = map Some
     [3, 4, 5, 6, 7, 8, 0, 1, 2,
      0, 1, 2, 3, 4, 5, 6, 7, 8,
      6, 7, 8, 0, 1, 2, 3, 4, 5,
      1, 2, 3, 4, 5, 6, 7, 8, 0,
      4, 5, 6, 7, 8, 0, 1, 2, 3,
      7, 8, 0, 1, 2, 3, 4, 5, 6,
      2, 3, 4, 5, 6, 7, 8, 0, 1,
      5, 6, 7, 8, 0, 1, 2, 3, 4,
      8, 0, 1, 2, 3, 4, 5, 6, 7]"

lemma other_lines_ok: "lines_ok example_other"
  by code_simp

lemma other_solved: "solved example_other"
  by (rule lines_ok_solved [OF other_lines_ok])

lemma other_differs: "example_other \<noteq> example_solution"
  by (simp add: example_other_def example_solution_def)

lemma nth_beyond: "length xs = length ys \<Longrightarrow> length xs \<le> p \<Longrightarrow> xs ! p = ys ! p"
  by (metis nth_append_length_plus append_Nil2 le_Suc_ex)

text \<open>Every solved board is a solution of a board of 81 empty cells.\<close>

lemma empty_board_solution:
  assumes "length P = 81" and "\<forall>p<81. P ! p = None" and "solved S" and "length S = 81"
  shows "solution_of P S"
proof -
  have "p < 81 \<and> P ! p = None \<and> S ! p \<noteq> None" if d: "S ! p \<noteq> P ! p" for p
  proof -
    have "p < 81" using d nth_beyond [of S P p] assms(1,4) by (cases "p < 81") auto
    then show ?thesis using assms(2) solved_filled [OF assms(3)] by simp
  qed
  then show ?thesis using assms(1,3,4) by (simp add: solution_of_def extends_def)
qed

section \<open>Boards with a duplicate\<close>

text \<open>Some line holds the same digit in two of its cells.\<close>

definition duplicate :: "board \<Rightarrow> bool" where
  "duplicate b \<longleftrightarrow>
     (\<exists>l \<in> set axis_lines. \<exists>y<9. \<exists>y'<9. y \<noteq> y' \<and> b ! posfor (snd l) y (fst l) \<noteq> None \<and>
        b ! posfor (snd l) y (fst l) = b ! posfor (snd l) y' (fst l))"

lemma duplicateI:
  assumes "l \<in> set axis_lines" and "y < 9" and "y' < 9" and "y \<noteq> y'"
    and "b ! posfor (snd l) y (fst l) \<noteq> None"
    and "b ! posfor (snd l) y (fst l) = b ! posfor (snd l) y' (fst l)"
  shows "duplicate b"
  unfolding duplicate_def using assms by blast

lemma duplicate_no_solution:
  assumes "duplicate b" and "extends b w"
  shows "\<not> solved w"
proof
  assume s: "solved w"
  from assms(1) obtain l y y' d where l: "l \<in> set axis_lines" and y: "y < 9" "y' < 9" "y \<noteq> y'"
    and v: "b ! posfor (snd l) y (fst l) = Some d" "b ! posfor (snd l) y' (fst l) = Some d"
    unfolding duplicate_def by (metis option.exhaust)
  have "w ! posfor (snd l) y (fst l) = w ! posfor (snd l) y' (fst l)"
    using extends_filled [OF assms(2)] v by simp
  from solved_line_inj [OF s l y(1,2) this] y(3) show False by simp
qed

subsection \<open>The answers of solveboard and solvenext, and the solutions of the puzzle\<close>

lemma solveboard_answer:
  assumes "solveboard r b = Inr (st, a, r1)"
  shows "a = None \<longleftrightarrow> (\<forall>S. \<not> solution_of b S)"
    and "a = Some x \<Longrightarrow> solution_of b x"
  using solveboard_enum [OF assms] by (cases a; auto)+

lemma solvenext_second:
  assumes sb: "solveboard r b = Inr (st, Some x, r1)"
    and sn: "solvenext r1 st = Inr (st', second, r2)"
  shows "second \<noteq> None \<longleftrightarrow> (\<exists>S. solution_of b S \<and> S \<noteq> x)"
proof -
  have en: "stack_sound st" "\<not> remaining st x" "\<And>S. solution_of b S \<longleftrightarrow> S = x \<or> remaining st S"
    using solveboard_enum [OF sb] by simp_all
  show ?thesis
  proof (cases second)
    case None
    then have "\<forall>S. \<not> remaining st S" using solvenext_enum [OF sn en(1)] by simp
    then show ?thesis using None en(3) by simp
  next
    case (Some y)
    then have "remaining st y" using solvenext_enum [OF sn en(1)] by simp
    then have "solution_of b y \<and> y \<noteq> x" using en(2,3) by blast
    then show ?thesis using Some by blast
  qed
qed

lemma example_duplicate: "duplicate (example_solution[1 := Some 0])"
proof -
  let ?b = "example_solution[1 := Some 0]"
  have "(0, 0) \<in> set axis_lines" by (simp add: set_axis_lines)
  moreover have "?b ! posfor (snd (0::nat, 0::nat)) 0 (fst (0::nat, 0::nat)) \<noteq> None"
    by (simp add: posfor_def example_solution_def)
  moreover have "?b ! posfor (snd (0::nat, 0::nat)) 0 (fst (0::nat, 0::nat)) =
      ?b ! posfor (snd (0::nat, 0::nat)) 1 (fst (0::nat, 0::nat))"
    by (simp add: posfor_def example_solution_def)
  ultimately show ?thesis by (intro duplicateI [of "(0, 0)" 0 1]) simp_all
qed

lemma other_length: "length example_other = 81"
  by (simp add: example_other_def)

lemma other_differs_at: "example_solution ! 0 \<noteq> example_other ! 0"
  by (simp add: example_other_def example_solution_def)

section \<open>Claims\<close>



section \<open>The axis arithmetic\<close>

lemma all_lt3: "(\<forall>a<3. P a) \<longleftrightarrow> P (0::nat) \<and> P 1 \<and> P 2"
proof -
  have "a < 3 \<longleftrightarrow> a = 0 \<or> a = 1 \<or> a = 2" for a :: nat by arith
  then show ?thesis by auto
qed

text \<open>Read with floor division, \<^verbatim>\<open>axisfor\<close> inverts \<^verbatim>\<open>posfor\<close>.\<close>

lemma axisfor_floor_posfor:
  "\<forall>axis<3. \<forall>x<9. \<forall>y<9. axisfor_floor (posfor x y axis) axis = x"
  unfolding all_lt3 all_lt9 by (simp add: axisfor_floor_def posfor_def)

text \<open>
  C2. The claim is that \<^verbatim>\<open>axisfor(posfor(x, y, axis), axis)\<close> equals \<^verbatim>\<open>x\<close> for every axis and
  every x, y of 0..8. As the file is written for Python 3, \<^verbatim>\<open>pos / 9\<close> is a true division:
  at x = 0, y = 1, axis = 0 the position is 1 and \<^verbatim>\<open>axisfor\<close> returns one ninth, not 0.
\<close>

theorem axisfor_true_division:
  "posfor 0 1 0 = 1 \<and> axisfor (posfor 0 1 0) 0 = 1 / 9 \<and> axisfor (posfor 0 1 0) 0 \<noteq> 0"
  by (simp add: posfor_def axisfor_def)

section \<open>Parsing\<close>

text \<open>The cell that a significant symbol denotes.\<close>

definition cell_of :: "char \<Rightarrow> cell" where
  "cell_of x = (if x \<in> set ''123456789'' then Some (of_char x - 49) else None)"

definition separator :: "char \<Rightarrow> bool" where
  "separator x \<longleftrightarrow> x \<in> set ''|-=+''"

text \<open>
  The grammar in the words of the specification: every character but the four separators
  is significant; the first 81 significant symbols make the board; fewer than 81 is the
  error \<open>InvalidBoardFormat\<close>.
\<close>

datatype parse_error = InvalidBoardFormat

definition parse_spec :: "string \<Rightarrow> parse_error + board" where
  "parse_spec s =
     (if length (filter (\<lambda>x. \<not> separator x) s) < 81 then Inl InvalidBoardFormat
      else Inr (map cell_of (take 81 (filter (\<lambda>x. \<not> separator x) s))))"

lemma parse_chars_Cons:
  "parse_chars (x # xs) result =
     (if separator x then parse_chars xs result
      else if length (result @ [cell_of x]) = 81 then Done (result @ [cell_of x])
      else parse_chars xs (result @ [cell_of x]))"
  by (simp add: separator_def cell_of_def)

lemma parse_chars_eq:
  "length acc < 81 \<Longrightarrow>
   parse_chars w acc =
     (if length acc + length (filter (\<lambda>x. \<not> separator x) w) < 81
      then More (acc @ map cell_of (filter (\<lambda>x. \<not> separator x) w))
      else Done (acc @ map cell_of (take (81 - length acc) (filter (\<lambda>x. \<not> separator x) w))))"
proof (induction w arbitrary: acc)
  case Nil
  then show ?case by simp
next
  case (Cons x w)
  show ?case
  proof (cases "separator x")
    case True
    then show ?thesis using Cons by (simp add: parse_chars_Cons del: parse_chars.simps)
  next
    case False
    note ns = this
    show ?thesis
    proof (cases "Suc (length acc) = 81")
      case True
      then have "81 - length acc = Suc 0" by simp
      then show ?thesis using ns True by (simp add: parse_chars_Cons del: parse_chars.simps)
    next
      case False
      then have l: "length (acc @ [cell_of x]) < 81" using Cons.prems by simp
      have "81 - length acc = Suc (81 - Suc (length acc))" using Cons.prems by simp
      then show ?thesis using ns False Cons.IH [OF l]
        by (simp add: parse_chars_Cons del: parse_chars.simps)
    qed
  qed
qed

lemma parse_words_eq:
  "length acc < 81 \<Longrightarrow>
   parse_words ws acc =
     (if length acc + length (filter (\<lambda>x. \<not> separator x) (concat ws)) < 81 then None
      else Some (acc @ map cell_of (take (81 - length acc) (filter (\<lambda>x. \<not> separator x) (concat ws)))))"
proof (induction ws arbitrary: acc)
  case Nil
  then show ?case by simp
next
  case (Cons w ws)
  let ?sw = "filter (\<lambda>x. \<not> separator x) w"
  show ?case
  proof (cases "length acc + length ?sw < 81")
    case True
    then have l: "length (acc @ map cell_of ?sw) < 81" by simp
    have "81 - length acc - length ?sw = 81 - (length acc + length ?sw)" by simp
    then show ?thesis using True Cons.prems Cons.IH [OF l]
      by (simp add: parse_chars_eq add.assoc)
  next
    case False
    then show ?thesis using Cons.prems by (simp add: parse_chars_eq)
  qed
qed

lemma concat_split_ws:
  "concat (split_ws w s) = w @ filter (\<lambda>x. \<not> isspace x) s"
  by (induction s arbitrary: w) auto

text \<open>What \<^verbatim>\<open>parseboard\<close> computes: whitespace is skipped with the separators.\<close>

lemma parseboard_eq:
  "parseboard s =
     (if length (filter (\<lambda>x. \<not> isspace x \<and> \<not> separator x) s) < 81 then None
      else Some (map cell_of (take 81 (filter (\<lambda>x. \<not> isspace x \<and> \<not> separator x) s))))"
proof -
  have "filter (\<lambda>x. \<not> separator x) (concat (split s)) = filter (\<lambda>x. \<not> isspace x \<and> \<not> separator x) s"
    by (simp add: split_def concat_split_ws conj_commute)
  then show ?thesis unfolding parseboard_def using parse_words_eq [of "[]" "split s"] by simp
qed

lemma isspace_simps [simp]: "isspace CHR '' ''" "\<not> isspace CHR ''1''" "\<not> isspace CHR ''2''"
  by (simp_all add: isspace_def)

lemma separator_simps [simp]: "\<not> separator CHR '' ''" "\<not> separator CHR ''1''" "\<not> separator CHR ''2''"
  by (simp_all add: separator_def)

lemma cell_of_simps [simp]: "cell_of CHR ''1'' = Some 0" "cell_of CHR '' '' = None"
  by (simp_all add: cell_of_def)

text \<open>
  C7. The claim is that every character other than a digit or one of \<^verbatim>\<open>| - = +\<close> counts as
  an empty cell, and that a text with fewer than 81 significant symbols fails with
  \<open>InvalidBoardFormat\<close>. On a 1, a blank and eighty more 1s, the grammar of the claim gives
  an empty second cell; \<^verbatim>\<open>parseboard\<close> skips the blank and returns 81 cells holding 0. On
  the two symbols 12 the claim demands the error; \<^verbatim>\<open>parseboard\<close> returns \<^verbatim>\<open>None\<close>.
\<close>

theorem parseboard_counterexample:
  "parse_spec (''1 '' @ replicate 80 CHR ''1'') = Inr (Some 0 # None # replicate 79 (Some 0)) \<and>
   parseboard (''1 '' @ replicate 80 CHR ''1'') = Some (Some 0 # replicate 80 (Some 0)) \<and>
   parse_spec ''12'' = Inl InvalidBoardFormat \<and>
   parseboard ''12'' = None"
proof -
  have a: "parse_spec (''1 '' @ replicate 80 CHR ''1'') = Inr (Some 0 # None # replicate 79 (Some 0))"
    by (simp add: parse_spec_def)
  have b: "parseboard (''1 '' @ replicate 80 CHR ''1'') = Some (Some 0 # replicate 80 (Some 0))"
    by (simp add: parseboard_eq)
  have c: "parse_spec ''12'' = Inl InvalidBoardFormat" by (simp add: parse_spec_def)
  have d: "parseboard ''12'' = None" by (simp add: parseboard_eq)
  from a b c d show ?thesis by blast
qed

text \<open>
  C7, amended. \<^verbatim>\<open>parseboard\<close> reads the symbols in order, skipping whitespace and the
  separators \<^verbatim>\<open>| - = +\<close> without counting them; a digit 1-9 is the value 0-8 and any other
  symbol is an empty cell; the first 81 significant symbols are the board. On a text with
  fewer than 81 significant symbols it returns \<^verbatim>\<open>None\<close>: no board, and no error.
\<close>

theorem parseboard_grammar:
  "parseboard s =
     (if length (filter (\<lambda>x. \<not> isspace x \<and> \<not> separator x) s) < 81 then None
      else Some (map cell_of (take 81 (filter (\<lambda>x. \<not> isspace x \<and> \<not> separator x) s)))) \<and>
   map cell_of ''123456789._'' =
     [Some 0, Some 1, Some 2, Some 3, Some 4, Some 5, Some 6, Some 7, Some 8, None, None] \<and>
   filter separator ''|-=+1. '' = ''|-=+''"
  using parseboard_eq [of s] by (simp add: cell_of_def separator_def)

lemma solvenext_answer_solved:
  "solvenext r st = Inr (st', Some w, r') \<Longrightarrow> solved w"
proof (induction r st rule: solvenext_induct)
  case (empty r)
  then show ?case by simp
next
  case (pop r g c w0 rest)
  then show ?case by (simp add: solvenext_pop)
next
  case (raise r g c w0 rest e)
  then show ?case using solvenext_raise [OF raise(1,2), of rest] by auto
next
  case (found r g c w0 rest w' r1)
  then show ?case using deduce_None_solved(1) [OF found(3)] by (simp add: solvenext_found)
next
  case (push r g c w0 rest gs w' r1)
  then show ?case by (simp add: solvenext_push)
qed

lemma solveboard_Inr_length: "solveboard r b = Inr res \<Longrightarrow> 81 \<le> length b"
  by (cases "deduce r b") (auto simp: solveboard_def dest: deduce_extends(2))

lemma solveboard_of_solved:
  "solved b \<Longrightarrow> 81 \<le> length b \<Longrightarrow> solveboard r b = Inr ([], Some b, r)"
  by (simp add: solveboard_def deduce_of_solved)

text \<open>
  C1. Whenever \<^verbatim>\<open>solveboard\<close> or \<^verbatim>\<open>solvenext\<close> returns a board as the answer, all 81 cells
  of that board hold a digit of 0..8 and every row, column and box holds every digit
  exactly once (and the answer of \<^verbatim>\<open>solveboard\<close> is as long as the board given).
\<close>

theorem answers_solved:
  "(solveboard r b = Inr (st, Some w, r') \<longrightarrow> solved w \<and> length w = length b) \<and>
   (solvenext r0 st0 = Inr (st1, Some w1, r1) \<longrightarrow> solved w1)"
proof (intro conjI impI)
  assume s: "solveboard r b = Inr (st, Some w, r')"
  then have "81 \<le> length b" by (rule solveboard_Inr_length)
  from solveboard_wf [OF this, of r] s have "solved w \<and> extends b w" by auto
  then show "solved w" and "length w = length b" by (simp_all add: extends_length)
next
  assume "solvenext r0 st0 = Inr (st1, Some w1, r1)"
  then show "solved w1" by (rule solvenext_answer_solved)
qed

lemma example_update: "example_solution[0 := Some 0] = example_solution"
  by (simp add: example_solution_def)

theorem answers_solved_witness:
  "solveboard [] example_solution = Inr ([], Some example_solution, []) \<and>
   solvenext [] [([(0, 0)], 0, example_solution)] =
     Inr ([([(0, 0)], 1, example_solution)], Some example_solution, []) \<and>
   solved example_solution \<and> length example_solution = 81"
proof -
  have l: "81 \<le> length example_solution" by (simp add: example_length)
  have a: "solveboard [] example_solution = Inr ([], Some example_solution, [])"
    using solveboard_of_solved [OF example_solved l] .
  have d: "deduce [] (example_solution[fst ([(0, 0)] ! 0) := Some (snd ([(0::nat, 0::nat)] ! 0))])
      = Inr (None, example_solution, [])"
    using deduce_of_solved [OF example_solved l, of "[]"] by (simp add: example_update)
  have b: "solvenext [] [([(0, 0)], 0, example_solution)] =
      Inr ([([(0, 0)], 1, example_solution)], Some example_solution, [])"
    using solvenext_found [OF _ _ d, of "[]"] example_length by simp
  from answers_solved [of "[]" example_solution "[]" example_solution "[]"
      "[]" "[([(0, 0)], 0, example_solution)]" "[([(0, 0)], 1, example_solution)]" example_solution "[]"]
  have "solved example_solution \<and> length example_solution = 81" using a b example_length by simp
  with a b show ?thesis by simp
qed

section \<open>checkpuzzle\<close>

text \<open>
  C4. \<^verbatim>\<open>checkpuzzle(puzzle, target)\<close> on 81-cell boards raises nothing. \<^verbatim>\<open>solveboard\<close> finds
  no answer exactly when no solved board extends the puzzle; an answer is a solved board
  that extends the puzzle, and \<^verbatim>\<open>solvenext\<close> on the stack returned with it finds a second
  answer exactly when another solved board extends the puzzle. \<^verbatim>\<open>checkpuzzle\<close> returns -1
  exactly when the puzzle has no solution, or the answer differs from the target in some
  cell, or \<^verbatim>\<open>solvenext\<close> finds a second answer; otherwise it returns the number of frames
  on the stack returned with the answer, which is not negative.
\<close>

theorem checkpuzzle_result:
  assumes "81 \<le> length puzzle" and "case target of None \<Rightarrow> True | Some b \<Rightarrow> 81 \<le> length b"
  shows "\<exists>state answer r1 v r'.
           solveboard r puzzle = Inr (state, answer, r1) \<and>
           checkpuzzle r puzzle target = Inr (v, r') \<and>
           (answer = None \<longleftrightarrow> (\<forall>S. \<not> solution_of puzzle S)) \<and>
           (\<forall>a. answer = Some a \<longrightarrow> solution_of puzzle a \<and>
              ((\<exists>st' second r2. solvenext r1 state = Inr (st', Some second, r2)) \<longleftrightarrow>
               (\<exists>S. solution_of puzzle S \<and> S \<noteq> a))) \<and>
           (v = - 1 \<longleftrightarrow>
              (\<forall>S. \<not> solution_of puzzle S) \<or>
              (\<exists>b a. target = Some b \<and> answer = Some a \<and> (\<exists>i<81. b ! i \<noteq> a ! i)) \<or>
              (\<exists>st' second r2. solvenext r1 state = Inr (st', Some second, r2))) \<and>
           (v \<noteq> - 1 \<longrightarrow> v = int (length state) \<and> 0 \<le> v)"
proof -
  obtain state answer r1 where sb: "solveboard r puzzle = Inr (state, answer, r1)"
    and wf: "stack_wf puzzle state" and ans: "\<forall>w. answer = Some w \<longrightarrow> solved w \<and> extends puzzle w"
    using solveboard_wf [OF assms(1), of r] by blast
  obtain st' second r2 where sn: "solvenext r1 state = Inr (st', second, r2)"
    using solvenext_wf [OF wf assms(1), of r1] by blast
  have none: "answer = None \<longleftrightarrow> (\<forall>S. \<not> solution_of puzzle S)"
    using solveboard_answer(1) [OF sb] .
  have snd: "(\<exists>st' second r2. solvenext r1 state = Inr (st', Some second, r2)) \<longleftrightarrow> second \<noteq> None"
    using sn by auto
  have some: "solution_of puzzle a \<and>
      ((\<exists>st' second r2. solvenext r1 state = Inr (st', Some second, r2)) \<longleftrightarrow>
       (\<exists>S. solution_of puzzle S \<and> S \<noteq> a))" if a: "answer = Some a" for a
    unfolding snd using solveboard_answer(2) [OF sb a] solvenext_second [OF sb [unfolded a] sn]
    by simp
  have rate: "\<exists>v r'. checkpuzzle r puzzle target = Inr (v, r') \<and>
      (v = - 1 \<longleftrightarrow>
         answer = None \<or>
         (\<exists>b a. target = Some b \<and> answer = Some a \<and> (\<exists>i<81. b ! i \<noteq> a ! i)) \<or> second \<noteq> None) \<and>
      (v \<noteq> - 1 \<longrightarrow> v = int (length state) \<and> 0 \<le> v)"
  proof (cases answer)
    case None
    then show ?thesis using sb by (simp add: checkpuzzle_def)
  next
    case (Some a)
    then have "extends puzzle a" using ans by simp
    then have la: "81 \<le> length a" using assms(1) by (simp add: extends_length)
    define m where "m = (case target of None \<Rightarrow> True | Some b \<Rightarrow> \<forall>i<81. b ! i = a ! i)"
    have bm: "(case target of None \<Rightarrow> Inr True | Some b \<Rightarrow> boardmatches b a) = Inr m"
      using assms(2) la by (auto simp: m_def boardmatches_eq split: option.splits)
    have differs: "(\<exists>b a'. target = Some b \<and> answer = Some a' \<and> (\<exists>i<81. b ! i \<noteq> a' ! i)) \<longleftrightarrow> \<not> m"
      using Some by (auto simp: m_def split: option.splits)
    show ?thesis
    proof (cases m)
      case False
      then have "checkpuzzle r puzzle target = Inr (- 1, r1)"
        using sb Some bm by (simp add: checkpuzzle_def)
      then show ?thesis using differs False by simp
    next
      case True
      then have "checkpuzzle r puzzle target =
          (if second \<noteq> None then Inr (- 1, r2) else Inr (int (length state), r2))"
        using sb Some bm sn by (simp add: checkpuzzle_def)
      then show ?thesis using differs True Some by (cases second) auto
    qed
  qed
  then obtain v r' where c: "checkpuzzle r puzzle target = Inr (v, r')"
    and v: "v = - 1 \<longleftrightarrow>
         answer = None \<or>
         (\<exists>b a. target = Some b \<and> answer = Some a \<and> (\<exists>i<81. b ! i \<noteq> a ! i)) \<or> second \<noteq> None"
    and n: "v \<noteq> - 1 \<longrightarrow> v = int (length state) \<and> 0 \<le> v"
    by blast
  have 3: "\<forall>a. answer = Some a \<longrightarrow> solution_of puzzle a \<and>
      ((\<exists>st' second r2. solvenext r1 state = Inr (st', Some second, r2)) \<longleftrightarrow>
       (\<exists>S. solution_of puzzle S \<and> S \<noteq> a))"
    using some by blast
  have 4: "v = - 1 \<longleftrightarrow>
      (\<forall>S. \<not> solution_of puzzle S) \<or>
      (\<exists>b a. target = Some b \<and> answer = Some a \<and> (\<exists>i<81. b ! i \<noteq> a ! i)) \<or>
      (\<exists>st' second r2. solvenext r1 state = Inr (st', Some second, r2))"
    unfolding snd none [symmetric] by (rule v)
  show ?thesis
    by (rule exI [of _ state], rule exI [of _ answer], rule exI [of _ r1], rule exI [of _ v],
        rule exI [of _ r']) (intro conjI sb c none 3 4 n)
qed

theorem checkpuzzle_result_witness:
  "checkpuzzle [] example_solution (Some example_solution) = Inr (0, []) \<and>
   (\<exists>r'. checkpuzzle [] (example_solution[1 := Some 0]) (Some example_solution) = Inr (- 1, r')) \<and>
   (\<exists>r'. checkpuzzle [] example_other (Some example_solution) = Inr (- 1, r')) \<and>
   (\<exists>r'. checkpuzzle [] (replicate 81 None) None = Inr (- 1, r')) \<and>
   (\<exists>P state r1 r'. length P = 81 \<and> filled P < 81 \<and>
      solveboard [] P = Inr (state, Some example_solution, r1) \<and>
      checkpuzzle [] P (Some example_solution) = Inr (int (length state), r'))"
proof -
  have l: "81 \<le> length example_solution" by (simp add: example_length)
  have t: "case Some example_solution of None \<Rightarrow> True | Some b \<Rightarrow> 81 \<le> length b"
    using l by simp
  have self: "solution_of example_solution S \<longleftrightarrow> S = example_solution" for S
    using solution_of_solved [OF example_solved] .
  have 1: "checkpuzzle [] example_solution (Some example_solution) = Inr (0, [])"
  proof -
    from checkpuzzle_result [OF l t, of "[]"] obtain state answer r1 v r' where
      sb: "solveboard [] example_solution = Inr (state, answer, r1)"
      and c: "checkpuzzle [] example_solution (Some example_solution) = Inr (v, r')"
      and none: "answer = None \<longleftrightarrow> (\<forall>S. \<not> solution_of example_solution S)"
      and a: "\<forall>a. answer = Some a \<longrightarrow> solution_of example_solution a \<and>
        ((\<exists>st' second r2. solvenext r1 state = Inr (st', Some second, r2)) \<longleftrightarrow>
         (\<exists>S. solution_of example_solution S \<and> S \<noteq> a))"
      and v: "v = - 1 \<longleftrightarrow>
        (\<forall>S. \<not> solution_of example_solution S) \<or>
        (\<exists>b a. Some example_solution = Some b \<and> answer = Some a \<and> (\<exists>i<81. b ! i \<noteq> a ! i)) \<or>
        (\<exists>st' second r2. solvenext r1 state = Inr (st', Some second, r2))"
      and n: "v \<noteq> - 1 \<longrightarrow> v = int (length state) \<and> 0 \<le> v"
      by (elim exE conjE) (rule that)
    have s: "state = []" "answer = Some example_solution" "r1 = []"
      using sb solveboard_of_solved [OF example_solved l, of "[]"] by simp_all
    have no2: "\<not> (\<exists>st' second r2. solvenext r1 state = Inr (st', Some second, r2))"
      using a s(2) self by blast
    have "\<not> (\<forall>S. \<not> solution_of example_solution S)" using self by blast
    moreover have "\<not> (\<exists>b a. Some example_solution = Some b \<and> answer = Some a \<and> (\<exists>i<81. b ! i \<noteq> a ! i))"
      using s(2) by simp
    ultimately have "v \<noteq> - 1" using v no2 by blast
    then have "v = 0" using n s(1) by simp
    moreover have "r' = []" using c s sb l by (simp add: checkpuzzle_def boardmatches_eq)
    ultimately show ?thesis using c by simp
  qed
  have 2: "\<exists>r'. checkpuzzle [] (example_solution[1 := Some 0]) (Some example_solution) = Inr (- 1, r')"
  proof -
    have l2: "81 \<le> length (example_solution[1 := Some 0])" using l by simp
    from checkpuzzle_result [OF l2 t, of "[]"] obtain state answer r1 v r' where
      sb: "solveboard [] (example_solution[1 := Some 0]) = Inr (state, answer, r1)"
      and c: "checkpuzzle [] (example_solution[1 := Some 0]) (Some example_solution) = Inr (v, r')"
      and none: "answer = None \<longleftrightarrow> (\<forall>S. \<not> solution_of (example_solution[1 := Some 0]) S)"
      and a: "\<forall>a. answer = Some a \<longrightarrow> solution_of (example_solution[1 := Some 0]) a \<and>
        ((\<exists>st' second r2. solvenext r1 state = Inr (st', Some second, r2)) \<longleftrightarrow>
         (\<exists>S. solution_of (example_solution[1 := Some 0]) S \<and> S \<noteq> a))"
      and v: "v = - 1 \<longleftrightarrow>
        (\<forall>S. \<not> solution_of (example_solution[1 := Some 0]) S) \<or>
        (\<exists>b a. Some example_solution = Some b \<and> answer = Some a \<and> (\<exists>i<81. b ! i \<noteq> a ! i)) \<or>
        (\<exists>st' second r2. solvenext r1 state = Inr (st', Some second, r2))"
      and n: "v \<noteq> - 1 \<longrightarrow> v = int (length state) \<and> 0 \<le> v"
      by (elim exE conjE) (rule that)
    have "\<forall>S. \<not> solution_of (example_solution[1 := Some 0]) S"
      using duplicate_no_solution [OF example_duplicate] by (auto simp: solution_of_def)
    then have "v = - 1" using v by blast
    then show ?thesis using c by blast
  qed
  have 3: "\<exists>r'. checkpuzzle [] example_other (Some example_solution) = Inr (- 1, r')"
  proof -
    have l3: "81 \<le> length example_other" by (simp add: other_length)
    from checkpuzzle_result [OF l3 t, of "[]"] obtain state answer r1 v r' where
      sb: "solveboard [] example_other = Inr (state, answer, r1)"
      and c: "checkpuzzle [] example_other (Some example_solution) = Inr (v, r')"
      and none: "answer = None \<longleftrightarrow> (\<forall>S. \<not> solution_of example_other S)"
      and a: "\<forall>a. answer = Some a \<longrightarrow> solution_of example_other a \<and>
        ((\<exists>st' second r2. solvenext r1 state = Inr (st', Some second, r2)) \<longleftrightarrow>
         (\<exists>S. solution_of example_other S \<and> S \<noteq> a))"
      and v: "v = - 1 \<longleftrightarrow>
        (\<forall>S. \<not> solution_of example_other S) \<or>
        (\<exists>b a. Some example_solution = Some b \<and> answer = Some a \<and> (\<exists>i<81. b ! i \<noteq> a ! i)) \<or>
        (\<exists>st' second r2. solvenext r1 state = Inr (st', Some second, r2))"
      and n: "v \<noteq> - 1 \<longrightarrow> v = int (length state) \<and> 0 \<le> v"
      by (elim exE conjE) (rule that)
    have so: "solution_of example_other S \<longleftrightarrow> S = example_other" for S
      using solution_of_solved [OF other_solved] .
    have "answer \<noteq> None" using none so by blast
    then obtain x where x: "answer = Some x" by blast
    then have xo: "answer = Some example_other" using a so by blast
    have "\<exists>i<81. example_solution ! i \<noteq> example_other ! i"
      using other_differs_at by (intro exI [of _ 0]) simp
    then have "\<exists>b a. Some example_solution = Some b \<and> answer = Some a \<and> (\<exists>i<81. b ! i \<noteq> a ! i)"
      using xo by blast
    then have "v = - 1" using v by blast
    then show ?thesis using c by blast
  qed
  have 4: "\<exists>r'. checkpuzzle [] (replicate 81 None) None = Inr (- 1, r')"
  proof -
    have l4: "81 \<le> length (replicate 81 None :: board)" by simp
    have t4: "case None :: board option of None \<Rightarrow> True | Some b \<Rightarrow> 81 \<le> length b" by simp
    from checkpuzzle_result [OF l4 t4, of "[]"] obtain state answer r1 v r' where
      sb: "solveboard [] (replicate 81 None) = Inr (state, answer, r1)"
      and c: "checkpuzzle [] (replicate 81 None) None = Inr (v, r')"
      and none: "answer = None \<longleftrightarrow> (\<forall>S. \<not> solution_of (replicate 81 None) S)"
      and a: "\<forall>a. answer = Some a \<longrightarrow> solution_of (replicate 81 None) a \<and>
        ((\<exists>st' second r2. solvenext r1 state = Inr (st', Some second, r2)) \<longleftrightarrow>
         (\<exists>S. solution_of (replicate 81 None) S \<and> S \<noteq> a))"
      and v: "v = - 1 \<longleftrightarrow>
        (\<forall>S. \<not> solution_of (replicate 81 None) S) \<or>
        (\<exists>b a. None = Some b \<and> answer = Some a \<and> (\<exists>i<81. b ! i \<noteq> a ! i)) \<or>
        (\<exists>st' second r2. solvenext r1 state = Inr (st', Some second, r2))"
      and n: "v \<noteq> - 1 \<longrightarrow> v = int (length state) \<and> 0 \<le> v"
      by (elim exE conjE) (rule that)
    have s1: "solution_of (replicate 81 None) example_solution"
      by (rule empty_board_solution [OF _ _ example_solved example_length]) simp_all
    have s2: "solution_of (replicate 81 None) example_other"
      by (rule empty_board_solution [OF _ _ other_solved other_length]) simp_all
    have "answer \<noteq> None" using none s1 by blast
    then obtain x where x: "answer = Some x" by blast
    have "\<exists>S. solution_of (replicate 81 None) S \<and> S \<noteq> x"
    proof (cases "x = example_solution")
      case True
      then show ?thesis using s2 other_differs by blast
    next
      case False
      then show ?thesis using s1 by blast
    qed
    then have "\<exists>st' second r2. solvenext r1 state = Inr (st', Some second, r2)" using a x by blast
    then have "v = - 1" using v by blast
    then show ?thesis using c by blast
  qed
  have 5: "\<exists>P state r1 r'. length P = 81 \<and> filled P < 81 \<and>
      solveboard [] P = Inr (state, Some example_solution, r1) \<and>
      checkpuzzle [] P (Some example_solution) = Inr (int (length state), r')"
  proof -
    obtain F r0 q where F: "q < 81" "q \<notin> F" "unique_for example_solution F"
      using makepuzzle_clues [OF example_solved example_length, of "[]"] by blast
    define P where "P = clue_board example_solution F"
    have l5: "81 \<le> length P" by (simp add: P_def)
    have sol: "solution_of P example_solution"
      unfolding P_def using solution_of_clue_board [OF example_solved example_length] .
    have un: "\<And>S. solution_of P S \<Longrightarrow> S = example_solution"
      using F(3) by (simp add: unique_for_def P_def)
    from checkpuzzle_result [OF l5 t, of "[]"] obtain state answer r1 v r' where
      sb: "solveboard [] P = Inr (state, answer, r1)"
      and c: "checkpuzzle [] P (Some example_solution) = Inr (v, r')"
      and none: "answer = None \<longleftrightarrow> (\<forall>S. \<not> solution_of P S)"
      and a: "\<forall>a. answer = Some a \<longrightarrow> solution_of P a \<and>
        ((\<exists>st' second r2. solvenext r1 state = Inr (st', Some second, r2)) \<longleftrightarrow>
         (\<exists>S. solution_of P S \<and> S \<noteq> a))"
      and v: "v = - 1 \<longleftrightarrow>
        (\<forall>S. \<not> solution_of P S) \<or>
        (\<exists>b a. Some example_solution = Some b \<and> answer = Some a \<and> (\<exists>i<81. b ! i \<noteq> a ! i)) \<or>
        (\<exists>st' second r2. solvenext r1 state = Inr (st', Some second, r2))"
      and n: "v \<noteq> - 1 \<longrightarrow> v = int (length state) \<and> 0 \<le> v"
      by (elim exE conjE) (rule that)
    have "answer \<noteq> None" using none sol by blast
    then obtain x where x: "answer = Some x" by blast
    have xe: "x = example_solution" using a x un by blast
    have no2: "\<not> (\<exists>st' second r2. solvenext r1 state = Inr (st', Some second, r2))"
      using a x xe un by blast
    have "\<not> (\<forall>S. \<not> solution_of P S)" using sol by blast
    moreover have "\<not> (\<exists>b a. Some example_solution = Some b \<and> answer = Some a \<and> (\<exists>i<81. b ! i \<noteq> a ! i))"
      using x xe by simp
    ultimately have "v \<noteq> - 1" using v no2 by blast
    then have v': "v = int (length state)" using n by simp
    have "P ! q = None" using F(1,2) by (simp add: nth_clue_board P_def)
    then have f: "filled P < 81" using filled_hole [of q P] F(1) by (simp add: P_def)
    have "length P = 81" by (simp add: P_def)
    then show ?thesis using f sb [unfolded x xe] c [unfolded v'] by blast
  qed
  show ?thesis using 1 2 3 4 5 by (intro conjI)
qed

text \<open>
  C6. On an 81-cell board in which some digit occurs twice in a row, a column or a box,
  \<^verbatim>\<open>solveboard\<close> returns no answer, whatever the random choices.
\<close>

theorem duplicate_unsolvable:
  assumes "length b = 81" and "duplicate b"
  shows "\<exists>st r'. solveboard r b = Inr (st, None, r')"
proof -
  have "81 \<le> length b" using assms(1) by simp
  from solveboard_wf [OF this, of r] obtain st a r' where
    s: "solveboard r b = Inr (st, a, r')" and a: "\<forall>w. a = Some w \<longrightarrow> solved w \<and> extends b w"
    by blast
  have "a = None"
  proof (cases a)
    case (Some w)
    then show ?thesis using a duplicate_no_solution [OF assms(2)] by blast
  qed simp
  with s show ?thesis by blast
qed

theorem duplicate_unsolvable_witness:
  "\<exists>st r'. solveboard [] (example_solution[1 := Some 0]) = Inr (st, None, r')"
proof -
  let ?b = "example_solution[1 := Some 0]"
  have l: "length ?b = 81" by (simp add: example_length)
  have "(0, 0) \<in> set axis_lines" by (simp add: set_axis_lines)
  moreover have "?b ! posfor (snd (0::nat, 0::nat)) 0 (fst (0::nat, 0::nat)) \<noteq> None"
    by (simp add: posfor_def example_solution_def)
  moreover have "?b ! posfor (snd (0::nat, 0::nat)) 0 (fst (0::nat, 0::nat)) =
      ?b ! posfor (snd (0::nat, 0::nat)) 1 (fst (0::nat, 0::nat))"
    by (simp add: posfor_def example_solution_def)
  ultimately have "duplicate ?b" by (intro duplicateI [of "(0, 0)" 0 1]) simp_all
  from duplicate_unsolvable [OF l this] show ?thesis .
qed

section \<open>Every point of a search\<close>

text \<open>
  The stacks that occur while \<^verbatim>\<open>solveboard\<close> and \<^verbatim>\<open>solvenext\<close> search from board \<open>b\<close>, at
  every point of the loop: the stack that \<^verbatim>\<open>solveboard\<close> makes, a stack after
  \<^verbatim>\<open>pop()\<close>, after the frame is appended again with its cursor advanced, and after the
  frame of the child board is appended.
\<close>

inductive search_from :: "board \<Rightarrow> frame list \<Rightarrow> bool" for b :: board where
  start: "deduce r b = Inr (Some g, w, r') \<Longrightarrow> search_from b [(g, 0, w)]"
| empty: "search_from b []"
| pop: "search_from b (f # rest) \<Longrightarrow> search_from b rest"
| advance: "search_from b ((g, c, w) # rest) \<Longrightarrow> c < length g \<Longrightarrow>
     search_from b ((g, c + 1, w) # rest)"
| push: "search_from b ((g, c, w) # rest) \<Longrightarrow> c < length g \<Longrightarrow> fst (g ! c) < length w \<Longrightarrow>
     deduce r (w[fst (g ! c) := Some (snd (g ! c))]) = Inr (Some gs, w', r') \<Longrightarrow>
     search_from b ((gs, 0, w') # (g, c + 1, w) # rest)"

lemma search_from_wf:
  assumes "search_from b st" and "81 \<le> length b"
  shows "stack_wf b st"
  using assms
proof (induction rule: search_from.induct)
  case (start r g w r')
  then show ?case using stack_wf_start by blast
next
  case empty
  show ?case by simp
next
  case (pop f rest)
  then show ?case by simp
next
  case (advance g c w rest)
  then show ?case using stack_wf_advance by blast
next
  case (push g c w rest r gs w' r')
  then show ?case using stack_wf_push(3) [OF _ push(2,4) _ refl] by blast
qed

lemma solvenext_search_from:
  "solvenext r st = Inr (st', a, r') \<Longrightarrow> search_from b st \<Longrightarrow> search_from b st'"
proof (induction r st rule: solvenext_induct)
  case (empty r)
  then show ?case by simp
next
  case (pop r g c w rest)
  then show ?case using search_from.pop [of b "(g, c, w)" rest] by (simp add: solvenext_pop)
next
  case (raise r g c w rest e)
  then show ?case using solvenext_raise [OF raise(1,2), of rest] by auto
next
  case (found r g c w rest w' r1)
  then show ?case using search_from.advance [of b g c w rest] by (simp add: solvenext_found)
next
  case (push r g c w rest gs w' r1)
  have "search_from b ((gs, 0, w') # (g, c + 1, w) # rest)"
    using search_from.push [OF push(6) push(1,2,3)] .
  then show ?case using push by (simp add: solvenext_push)
qed

lemma solveboard_search_from:
  assumes "solveboard r b = Inr (st, a, r')"
  shows "search_from b st"
proof (cases "deduce r b")
  case (Inl e)
  then show ?thesis using assms by (simp add: solveboard_def)
next
  case (Inr res)
  obtain g w r1 where res: "res = (g, w, r1)" by (cases res)
  show ?thesis
  proof (cases g)
    case None
    then show ?thesis using assms Inr res search_from.empty by (simp add: solveboard_def)
  next
    case (Some gs)
    then have "search_from b [(gs, 0, w)]" using Inr res search_from.start by blast
    moreover have "solvenext r1 [(gs, 0, w)] = Inr (st, a, r')"
      using assms Inr res Some by (simp add: solveboard_def)
    ultimately show ?thesis using solvenext_search_from by blast
  qed
qed

subsection \<open>A puzzle with several solutions\<close>

text \<open>The example board with rows 0, 1, 3 and 4 emptied.\<close>

definition example_puzzle :: board where
  "example_puzzle =
     replicate 18 None @ map Some [6, 7, 8, 0, 1, 2, 3, 4, 5] @ replicate 18 None @
     map Some
     [7, 8, 0, 1, 2, 3, 4, 5, 6,
      2, 3, 4, 5, 6, 7, 8, 0, 1,
      5, 6, 7, 8, 0, 1, 2, 3, 4,
      8, 0, 1, 2, 3, 4, 5, 6, 7]"

text \<open>The example board with rows 3 and 4 exchanged.\<close>

definition example_third :: board where
  "example_third = map Some
     [0, 1, 2, 3, 4, 5, 6, 7, 8,
      3, 4, 5, 6, 7, 8, 0, 1, 2,
      6, 7, 8, 0, 1, 2, 3, 4, 5,
      4, 5, 6, 7, 8, 0, 1, 2, 3,
      1, 2, 3, 4, 5, 6, 7, 8, 0,
      7, 8, 0, 1, 2, 3, 4, 5, 6,
      2, 3, 4, 5, 6, 7, 8, 0, 1,
      5, 6, 7, 8, 0, 1, 2, 3, 4,
      8, 0, 1, 2, 3, 4, 5, 6, 7]"

lemma third_lines_ok: "lines_ok example_third"
  by code_simp

lemma third_solved: "solved example_third"
  by (rule lines_ok_solved [OF third_lines_ok])

lemma third_differs: "example_third \<noteq> example_solution"
  by (simp add: example_third_def example_solution_def)

lemma puzzle_length: "length example_puzzle = 81"
  by (simp add: example_puzzle_def)

text \<open>Board \<open>b\<close> fills empty cells of board \<open>a\<close> and keeps the others, cell by cell.\<close>

definition fills :: "board \<Rightarrow> board \<Rightarrow> bool" where
  "fills a b \<longleftrightarrow>
     length a = 81 \<and> length b = 81 \<and>
     list_all (\<lambda>p. b ! p = a ! p \<or> a ! p = None \<and> b ! p \<noteq> None) [0..<81]"

lemma fills_extends:
  assumes "fills a b"
  shows "extends a b"
  unfolding extends_def
proof (intro conjI allI impI)
  show "length b = length a" using assms by (simp add: fills_def)
next
  fix p assume d: "b ! p \<noteq> a ! p"
  have "p < 81" using d nth_beyond [of b a p] assms by (cases "p < 81") (auto simp: fills_def)
  then have "b ! p = a ! p \<or> a ! p = None \<and> b ! p \<noteq> None"
    using assms by (simp add: fills_def list_all_iff)
  then show "p < 81" and "a ! p = None" and "b ! p \<noteq> None" using d \<open>p < 81\<close> by simp_all
qed

lemma puzzle_fills:
  "fills example_puzzle example_solution" "fills example_puzzle example_other"
  "fills example_puzzle example_third"
  by code_simp+

lemma puzzle_solutions:
  "solution_of example_puzzle example_solution" "solution_of example_puzzle example_other"
  "solution_of example_puzzle example_third"
  using puzzle_fills [THEN fills_extends] example_solved other_solved third_solved
  by (simp_all add: solution_of_def)

text \<open>In every cell, one of the two other solutions has the digit of the example board.\<close>

definition agrees :: "board \<Rightarrow> board \<Rightarrow> bool" where
  "agrees a b \<longleftrightarrow> length a = 81 \<and> length b = 81 \<and>
     list_all (\<lambda>p. a ! p = example_solution ! p \<or> b ! p = example_solution ! p) [0..<81]"

lemma other_third_agrees: "agrees example_other example_third"
  by code_simp

lemma other_or_third:
  "example_other ! p = example_solution ! p \<or> example_third ! p = example_solution ! p"
proof (cases "p < 81")
  case True
  then show ?thesis using other_third_agrees by (simp add: agrees_def list_all_iff)
next
  case False
  then show ?thesis
    using nth_beyond [of example_other example_solution p] other_third_agrees
    by (simp add: agrees_def example_length)
qed

subsection \<open>Frames of a puzzle with several solutions\<close>

lemma deduce_two_solutions:
  assumes "81 \<le> length b" and "solution_of b S1" and "solution_of b S2" and "S1 \<noteq> S2"
  shows "\<exists>g w r'. deduce r b = Inr (Some g, w, r')"
proof -
  obtain g w r' where d: "deduce r b = Inr (g, w, r')" using deduce_ok [OF assms(1)] by blast
  show ?thesis
  proof (cases g)
    case None
    then have "solved w" using deduce_None_solved(1) d by blast
    then have "S1 = w" "S2 = w"
      using deduce_sound(1) [OF d] assms(2,3) solution_of_solved by blast+
    then show ?thesis using assms(4) by simp
  next
    case (Some gs)
    then show ?thesis using d by blast
  qed
qed

lemma search_from_cursor:
  "search_from b ((g, 0, w) # rest) \<Longrightarrow> c \<le> length g \<Longrightarrow> search_from b ((g, c, w) # rest)"
proof (induction c)
  case 0
  then show ?case by simp
next
  case (Suc c)
  then show ?case using search_from.advance [of b g c w rest] by simp
qed

lemma solveboard_stack_nonempty:
  assumes "solveboard r b = Inr (st, a, r')" and "solution_of b S1" and "solution_of b S2"
    and "S1 \<noteq> S2"
  shows "st \<noteq> []"
proof
  assume e: "st = []"
  note en = solveboard_enum [OF assms(1)]
  show False
  proof (cases a)
    case None
    then show ?thesis using en assms(2) by simp
  next
    case (Some x)
    then have "\<And>S. solution_of b S \<longleftrightarrow> S = x" using en e by simp
    then show ?thesis using assms(2,3,4) by simp
  qed
qed

text \<open>
  A stack of two frames of the search on the example puzzle: the frame of the puzzle after
  deduce, and the frame of the child board of an option that the example board takes.
\<close>

lemma puzzle_two_frames:
  "\<exists>g c w gs w' r r'. deduce [] example_puzzle = Inr (Some g, w, r) \<and> c < length g \<and>
     deduce r (w[fst (g ! c) := Some (snd (g ! c))]) = Inr (Some gs, w', r') \<and>
     search_from example_puzzle [(gs, 0, w'), (g, c + 1, w)]"
proof -
  have l: "81 \<le> length example_puzzle" by (simp add: puzzle_length)
  obtain g w r where d: "deduce [] example_puzzle = Inr (Some g, w, r)"
    using deduce_two_solutions [OF l puzzle_solutions(1,2)] other_differs by metis
  have bo: "branch_ok w g" using deduce_branch_ok [OF d] .
  have lw: "81 \<le> length w" using deduce_extends(1) [OF d] l by (simp add: extends_length)
  have sw: "solution_of w example_solution" "solution_of w example_other"
    "solution_of w example_third"
    using deduce_sound(1) [OF d] puzzle_solutions by blast+
  obtain c where c: "c < length g" "hits example_solution (g ! c)"
    using branch_ok_cover [OF bo sw(1)] by blast
  define child where "child = w[fst (g ! c) := Some (snd (g ! c))]"
  have ch: "solution_of child S \<longleftrightarrow> solution_of w S \<and> hits S (g ! c)" for S
    unfolding child_def using option_solution [OF branch_ok_like [OF bo] lw c(1)] .
  have "hits example_other (g ! c) \<or> hits example_third (g ! c)"
    using c(2) other_or_third [of "fst (g ! c)"] by (auto simp: hits_def)
  then obtain T where T: "solution_of child T" "T \<noteq> example_solution"
    using ch sw(2,3) other_differs third_differs by blast
  have "solution_of child example_solution" using ch sw(1) c(2) by simp
  moreover have "81 \<le> length child" using lw by (simp add: child_def)
  ultimately obtain gs w' r' where d': "deduce r child = Inr (Some gs, w', r')"
    using deduce_two_solutions [of child example_solution T r] T by blast
  have "g ! c \<in> set g" using c(1) by simp
  then have p: "fst (g ! c) < length w" using bo lw by (auto simp: branch_ok_def)
  have "search_from example_puzzle [(g, 0, w)]" using search_from.start [OF d] .
  then have "search_from example_puzzle [(g, c, w)]" using search_from_cursor c(1) by simp
  then have "search_from example_puzzle [(gs, 0, w'), (g, c + 1, w)]"
    using search_from.push [OF _ c(1) p d' [unfolded child_def]] by simp
  then show ?thesis using d c(1) d' [unfolded child_def] by blast
qed

text \<open>
  C8. At every point of a search that \<^verbatim>\<open>solveboard\<close> starts on an 81-cell board and
  \<^verbatim>\<open>solvenext\<close> continues, no two frames of the stack hold the same board: the stack that
  \<^verbatim>\<open>solveboard\<close> returns is a stack of the search, \<^verbatim>\<open>solvenext\<close> takes a stack of the
  search to a stack of the search, and the boards of a stack of the search are distinct.
\<close>

theorem search_stack_distinct:
  assumes "length b = 81"
  shows "(search_from b st \<longrightarrow> distinct (map frame_board st)) \<and>
         (solveboard r b = Inr (st1, a1, r1) \<longrightarrow> search_from b st1) \<and>
         (search_from b st2 \<and> solvenext r2 st2 = Inr (st3, a3, r3) \<longrightarrow> search_from b st3)"
proof (intro conjI impI)
  assume "search_from b st"
  then have "stack_wf b st" using search_from_wf assms by simp
  then show "distinct (map frame_board st)" by (rule stack_wf_distinct)
next
  assume "solveboard r b = Inr (st1, a1, r1)"
  then show "search_from b st1" by (rule solveboard_search_from)
next
  assume "search_from b st2 \<and> solvenext r2 st2 = Inr (st3, a3, r3)"
  then show "search_from b st3" using solvenext_search_from by blast
qed

theorem search_stack_distinct_witness:
  "length example_puzzle = 81 \<and>
   (\<exists>g c w gs w' r r'. deduce [] example_puzzle = Inr (Some g, w, r) \<and> c < length g \<and>
      deduce r (w[fst (g ! c) := Some (snd (g ! c))]) = Inr (Some gs, w', r') \<and>
      search_from example_puzzle [(gs, 0, w'), (g, c + 1, w)] \<and>
      distinct (map frame_board [(gs, 0, w'), (g, c + 1, w)]) \<and> w' \<noteq> w \<and>
      (\<exists>st3 a3 r3. solvenext [] [(gs, 0, w'), (g, c + 1, w)] = Inr (st3, a3, r3) \<and>
         search_from example_puzzle st3 \<and> distinct (map frame_board st3))) \<and>
   (\<exists>st a r. solveboard [] example_puzzle = Inr (st, a, r) \<and> st \<noteq> [] \<and>
      search_from example_puzzle st \<and> distinct (map frame_board st))"
proof -
  have l: "81 \<le> length example_puzzle" by (simp add: puzzle_length)
  obtain g c w gs w' r r' where d: "deduce [] example_puzzle = Inr (Some g, w, r)"
    and c: "c < length g"
    and d': "deduce r (w[fst (g ! c) := Some (snd (g ! c))]) = Inr (Some gs, w', r')"
    and sf: "search_from example_puzzle [(gs, 0, w'), (g, c + 1, w)]"
    using puzzle_two_frames by blast
  let ?st = "[(gs, 0, w'), (g, c + 1, w)]"
  obtain st3 a3 r3 where sn: "solvenext [] ?st = Inr (st3, a3, r3)"
    using solvenext_wf [OF search_from_wf [OF sf l] l, of "[]"] by blast
  obtain st a r1 where sb: "solveboard [] example_puzzle = Inr (st, a, r1)"
    using solveboard_wf [OF l, of "[]"] by blast
  have ne: "st \<noteq> []"
    using solveboard_stack_nonempty [OF sb puzzle_solutions(1,2)] other_differs by simp
  note two = search_stack_distinct [OF puzzle_length, of ?st "[]" st a r1 ?st "[]" st3 a3 r3]
  have 1: "distinct (map frame_board ?st)" using two sf by blast
  then have 2: "w' \<noteq> w" by simp
  have 3: "search_from example_puzzle st" using two sb by blast
  have 4: "search_from example_puzzle st3" using two sf sn by blast
  have 5: "distinct (map frame_board st3)"
    using search_stack_distinct [OF puzzle_length, of st3] 4 by blast
  have 6: "distinct (map frame_board st)"
    using search_stack_distinct [OF puzzle_length, of st] 3 by blast
  have A: "\<exists>g c w gs w' r r'. deduce [] example_puzzle = Inr (Some g, w, r) \<and> c < length g \<and>
      deduce r (w[fst (g ! c) := Some (snd (g ! c))]) = Inr (Some gs, w', r') \<and>
      search_from example_puzzle [(gs, 0, w'), (g, c + 1, w)] \<and>
      distinct (map frame_board [(gs, 0, w'), (g, c + 1, w)]) \<and> w' \<noteq> w \<and>
      (\<exists>st3 a3 r3. solvenext [] [(gs, 0, w'), (g, c + 1, w)] = Inr (st3, a3, r3) \<and>
         search_from example_puzzle st3 \<and> distinct (map frame_board st3))"
    by (rule exI [of _ g], rule exI [of _ c], rule exI [of _ w], rule exI [of _ gs],
        rule exI [of _ w'], rule exI [of _ r], rule exI [of _ r'])
       (intro conjI d c d' sf 1 2 exI [of _ st3] exI [of _ a3] exI [of _ r3] sn 4 5)
  have B: "\<exists>st a r. solveboard [] example_puzzle = Inr (st, a, r) \<and> st \<noteq> [] \<and>
      search_from example_puzzle st \<and> distinct (map frame_board st)"
    using sb ne 3 6 by blast
  show ?thesis using puzzle_length A B by (intro conjI)
qed

section \<open>Termination with a count of the iterations\<close>

text \<open>\<^verbatim>\<open>deduce\<close> with at most \<open>k\<close> iterations of its outer loop.\<close>

fun deduce_fuel :: "nat \<Rightarrow> rnd \<Rightarrow> board \<Rightarrow> (error + (guess option \<times> board \<times> rnd)) option" where
  "deduce_fuel 0 r board = None"
| "deduce_fuel (Suc k) r board =
     (case deduce_iter r board of
        Inl e \<Rightarrow> Some (Inl e)
      | Inr (Returns g b' r') \<Rightarrow> Some (Inr (g, b', r'))
      | Inr (Repeat b' r') \<Rightarrow> deduce_fuel k r' b')"

text \<open>\<^verbatim>\<open>solvenext\<close> with at most \<open>k\<close> iterations of its loop.\<close>

fun solvenext_fuel :: "nat \<Rightarrow> rnd \<Rightarrow> frame list \<Rightarrow>
    (error + (frame list \<times> board option \<times> rnd)) option" where
  "solvenext_fuel k r [] = Some (Inr ([], None, r))"
| "solvenext_fuel 0 r (f # remembered) = None"
| "solvenext_fuel (Suc k) r ((guesses, c, board) # remembered) =
     (if c \<ge> length guesses then solvenext_fuel k r remembered
      else if fst (guesses ! c) \<ge> length board then Some (Inl IndexError)
      else (case deduce r (board[fst (guesses ! c) := Some (snd (guesses ! c))]) of
              Inl e \<Rightarrow> Some (Inl e)
            | Inr (None, workspace, r') \<Rightarrow>
                Some (Inr ((guesses, c + 1, board) # remembered, Some workspace, r'))
            | Inr (Some guesses', workspace, r') \<Rightarrow>
                solvenext_fuel k r' ((guesses', 0, workspace) # (guesses, c + 1, board) # remembered)))"

lemma empties_le: "empties b \<le> 81"
proof -
  have "empties b \<le> length [0..<81]" unfolding empties_def by (rule length_filter_le)
  then show ?thesis by simp
qed

lemma deduce_fuel_enough: "empties b < k \<Longrightarrow> deduce_fuel k r b = Some (deduce r b)"
proof (induction k arbitrary: r b)
  case 0
  then show ?case by simp
next
  case (Suc k)
  show ?case
  proof (cases "deduce_iter r b")
    case (Inl e)
    then show ?thesis by (simp add: deduce.simps [of r b])
  next
    case (Inr res)
    show ?thesis
    proof (cases res)
      case (Returns g b' r')
      then show ?thesis using Inr by (simp add: deduce.simps [of r b])
    next
      case (Repeat b' r')
      then have "empties b' < empties b" using deduce_iter_decreases Inr by blast
      then have "empties b' < k" using Suc.prems by simp
      from Suc.IH [OF this] show ?thesis using Inr Repeat by (simp add: deduce.simps [of r b])
    qed
  qed
qed

lemma solvenext_fuel_enough: "\<exists>k. solvenext_fuel k r st = Some (solvenext r st)"
proof (induction r st rule: solvenext_induct)
  case (empty r)
  show ?case by simp
next
  case (pop r g c w rest)
  then obtain k where "solvenext_fuel k r rest = Some (solvenext r rest)" by blast
  then have "solvenext_fuel (Suc k) r ((g, c, w) # rest) = Some (solvenext r ((g, c, w) # rest))"
    using pop(1) by (simp add: solvenext_pop)
  then show ?case by blast
next
  case (raise r g c w rest e)
  then have "solvenext_fuel (Suc 0) r ((g, c, w) # rest) = Some (solvenext r ((g, c, w) # rest))"
    by (auto simp: solvenext.simps(2))
  then show ?case by blast
next
  case (found r g c w rest w' r')
  then have "solvenext_fuel (Suc 0) r ((g, c, w) # rest) = Some (solvenext r ((g, c, w) # rest))"
    by (simp add: solvenext_found)
  then show ?case by blast
next
  case (push r g c w rest gs w' r')
  then obtain k where "solvenext_fuel k r' ((gs, 0, w') # (g, c + 1, w) # rest)
      = Some (solvenext r' ((gs, 0, w') # (g, c + 1, w) # rest))" by blast
  then have "solvenext_fuel (Suc k) r ((g, c, w) # rest) = Some (solvenext r ((g, c, w) # rest))"
    using push(1,2,3) by (simp add: solvenext_push)
  then show ?case by blast
qed

text \<open>
  C10. \<^verbatim>\<open>deduce\<close> and \<^verbatim>\<open>solvenext\<close> terminate. An iteration of \<^verbatim>\<open>deduce\<close>'s outer loop that
  does not return leaves fewer empty cells, so on an 81-cell board 82 iterations are
  enough. Some number of iterations is enough for \<^verbatim>\<open>solvenext\<close> on every stack; a step of
  its loop pops a frame, or advances the cursor of the top frame, and the frame it may
  push holds a board with fewer empty cells than the board of the frame it came from.
\<close>

theorem deduce_solvenext_terminate:
  "(length b = 81 \<longrightarrow> deduce_fuel 82 r b = Some (deduce r b)) \<and>
   (deduce_iter r b = Inr (Repeat b' r') \<longrightarrow> empties b' < empties b \<and> extends b b') \<and>
   (\<exists>k. solvenext_fuel k r0 st = Some (solvenext r0 st)) \<and>
   (81 \<le> length b0 \<and> search_from b0 ((g, c, w) # rest) \<and> c < length g \<and>
    deduce r1 (w[fst (g ! c) := Some (snd (g ! c))]) = Inr (Some gs, w', r2) \<longrightarrow>
      empties w' < empties w)"
proof (intro conjI impI)
  have "empties b < 82" using empties_le [of b] by simp
  then show "deduce_fuel 82 r b = Some (deduce r b)" by (rule deduce_fuel_enough)
next
  assume "deduce_iter r b = Inr (Repeat b' r')"
  then show "empties b' < empties b" by (rule deduce_iter_decreases)
next
  assume "deduce_iter r b = Inr (Repeat b' r')"
  from deduce_iter_extends(1) [OF this] show "extends b b'" by simp
next
  show "\<exists>k. solvenext_fuel k r0 st = Some (solvenext r0 st)" by (rule solvenext_fuel_enough)
next
  assume a: "81 \<le> length b0 \<and> search_from b0 ((g, c, w) # rest) \<and> c < length g \<and>
    deduce r1 (w[fst (g ! c) := Some (snd (g ! c))]) = Inr (Some gs, w', r2)"
  then have "stack_wf b0 ((g, c, w) # rest)" using search_from_wf by blast
  from stack_wf_push(2) [OF this] a show "empties w' < empties w" by blast
qed

theorem deduce_solvenext_terminate_witness:
  "length example_solution = 81 \<and>
   deduce_fuel 82 [] example_solution = Some (Inr (None, example_solution, [])) \<and>
   (\<exists>k. solvenext_fuel k [] [([(0, 0)], 0, example_solution)] =
      Some (Inr ([([(0, 0)], 1, example_solution)], Some example_solution, [])))"
proof -
  have l: "81 \<le> length example_solution" by (simp add: example_length)
  have d: "deduce [] example_solution = Inr (None, example_solution, [])"
    using deduce_of_solved [OF example_solved l] .
  have d': "deduce [] (example_solution[fst ([(0, 0)] ! 0) := Some (snd ([(0::nat, 0::nat)] ! 0))])
      = Inr (None, example_solution, [])"
    using d by (simp add: example_update)
  have s: "solvenext [] [([(0, 0)], 0, example_solution)] =
      Inr ([([(0, 0)], 1, example_solution)], Some example_solution, [])"
    using solvenext_found [OF _ _ d', of "[]"] example_length by simp
  from deduce_solvenext_terminate [of example_solution "[]" _ _ "[]" "[([(0, 0)], 0, example_solution)]"]
  show ?thesis using example_length d s by simp
qed

text \<open>
  C3. For every solved board \<open>B\<close> of 81 cells and every sequence of random choices,
  \<^verbatim>\<open>makepuzzle(B)\<close> raises nothing and returns a board \<open>P\<close> of 81 cells, every filled cell
  of which is the cell of \<open>B\<close>, such that \<^verbatim>\<open>checkpuzzle(P, B)\<close> is not -1 whatever its random
  choices, \<open>B\<close> is the only solved board that extends \<open>P\<close>, \<open>P\<close> has fewer filled cells than
  \<open>B\<close>, and for every filled cell of \<open>P\<close>, \<^verbatim>\<open>checkpuzzle\<close> on \<open>P\<close> with that cell emptied
  returns -1 whatever its random choices.
\<close>

theorem makepuzzle_minimal:
  assumes "solved B" and "length B = 81"
  shows "\<exists>P r'. makepuzzle r B = Inr (P, r') \<and> length P = 81 \<and> extends P B \<and>
           (\<forall>r1. \<exists>v r2. checkpuzzle r1 P (Some B) = Inr (v, r2) \<and> v \<noteq> - 1) \<and>
           (\<forall>S. solution_of P S \<longrightarrow> S = B) \<and>
           filled P < filled B \<and>
           (\<forall>p<81. P ! p \<noteq> None \<longrightarrow>
              (\<forall>r1. \<exists>r2. checkpuzzle r1 (P[p := None]) (Some B) = Inr (- 1, r2)))"
proof -
  obtain F r' q where mk: "makepuzzle r B = Inr (clue_board B F, r')" and F: "F \<subseteq> {..<81}"
    and q: "q < 81" "q \<notin> F" and un: "unique_for B F" and mn: "\<forall>p \<in> F. \<not> unique_for B (F - {p})"
    using makepuzzle_clues [OF assms] by blast
  let ?P = "clue_board B F"
  have 1: "extends ?P B" using solved_extends_clue_board [OF assms] .
  have 2: "\<exists>v r2. checkpuzzle r1 ?P (Some B) = Inr (v, r2) \<and> v \<noteq> - 1" for r1
    using checkpuzzle_clue_board [OF assms, of r1 F] un by auto
  have 3: "\<forall>S. solution_of ?P S \<longrightarrow> S = B" using un by (simp add: unique_for_def)
  have "?P ! q = None" using q by (simp add: nth_clue_board)
  then have 4: "filled ?P < filled B" using filled_hole [of q ?P] q(1) filled_solved [OF assms] by simp
  have 5: "\<exists>r2. checkpuzzle r1 (?P[p := None]) (Some B) = Inr (- 1, r2)"
    if p: "p < 81" "?P ! p \<noteq> None" for p r1
  proof -
    have "p \<in> F" using p by (simp add: nth_clue_board split: if_splits)
    then have "\<not> unique_for B (F - {p})" using mn by blast
    then show ?thesis using checkpuzzle_clue_board [OF assms, of r1 "F - {p}"]
      unfolding clue_board_remove by auto
  qed
  show ?thesis using mk 1 2 3 4 5 by (intro exI [of _ ?P] exI [of _ r']) simp
qed


theorem makepuzzle_minimal_witness:
  "solved example_solution \<and> length example_solution = 81 \<and>
   (\<exists>P r' p. makepuzzle [] example_solution = Inr (P, r') \<and> length P = 81 \<and>
      filled P < 81 \<and> p < 81 \<and> P ! p \<noteq> None \<and>
      (\<exists>v r2. checkpuzzle [] P (Some example_solution) = Inr (v, r2) \<and> v \<noteq> - 1) \<and>
      (\<exists>r2. checkpuzzle [] (P[p := None]) (Some example_solution) = Inr (- 1, r2)))"
proof -
  from makepuzzle_minimal [OF example_solved example_length, of "[]"] obtain P r' where
    mk: "makepuzzle [] example_solution = Inr (P, r')" and len: "length P = 81"
    and chk: "\<forall>r1. \<exists>v r2. checkpuzzle r1 P (Some example_solution) = Inr (v, r2) \<and> v \<noteq> - 1"
    and uniq: "\<forall>S. solution_of P S \<longrightarrow> S = example_solution"
    and fl: "filled P < filled example_solution"
    and mn: "\<forall>p<81. P ! p \<noteq> None \<longrightarrow>
       (\<forall>r1. \<exists>r2. checkpuzzle r1 (P[p := None]) (Some example_solution) = Inr (- 1, r2))"
    by blast
  have "\<exists>p<81. P ! p \<noteq> None"
  proof (rule ccontr)
    assume "\<not> (\<exists>p<81. P ! p \<noteq> None)"
    then have "\<forall>p<81. P ! p = None" by blast
    then have "solution_of P example_other"
      using empty_board_solution [OF len _ other_solved] by (simp add: example_other_def)
    then show False using uniq other_differs by blast
  qed
  then obtain p where p: "p < 81" "P ! p \<noteq> None" by blast
  have f: "filled P < 81" using fl filled_solved [OF example_solved example_length] by simp
  have c1: "\<exists>v r2. checkpuzzle [] P (Some example_solution) = Inr (v, r2) \<and> v \<noteq> - 1"
    using chk by blast
  have c2: "\<exists>r2. checkpuzzle [] (P[p := None]) (Some example_solution) = Inr (- 1, r2)"
    using mn p by blast
  show ?thesis using example_solved example_length mk len f p c1 c2 by blast
qed

section \<open>Boards as objects\<close>

text \<open>
  A Python list is an object: two names may hold the same list, and \<^verbatim>\<open>board[pos] = n\<close>
  changes it for both. The store holds the boards that exist, the address of a board is
  its index in the store, and \<^verbatim>\<open>list(x)\<close> makes a new board at the next address.
\<close>

type_synonym addr = nat
type_synonym store = "board list"

definition alloc :: "board \<Rightarrow> store \<Rightarrow> addr \<times> store" where
  "alloc b h = (length h, h @ [b])"

text \<open>\<^verbatim>\<open>workspace[pos] = n\<close> on the board at address \<open>a\<close>.\<close>

definition write_cell :: "addr \<Rightarrow> nat \<Rightarrow> cell \<Rightarrow> store \<Rightarrow> error + store" where
  "write_cell a pos v h =
     (if pos \<ge> length (h ! a) then Inl IndexError else Inr (h[a := (h ! a)[pos := v]]))"

text \<open>
  \<^verbatim>\<open>deduce(board)\<close> writes its cells into the board it is given, and into no other list:
  the board of \<open>deduce\<close> is the content of that object. It raises only before its first write.
\<close>

definition deduce_at :: "rnd \<Rightarrow> addr \<Rightarrow> store \<Rightarrow> (error + guess option \<times> rnd) \<times> store" where
  "deduce_at r a h =
     (case deduce r (h ! a) of
        Inl e \<Rightarrow> (Inl e, h)
      | Inr (g, b', r') \<Rightarrow> (Inr (g, r'), h[a := b']))"

text \<open>A frame \<^verbatim>\<open>(guesses, c, board)\<close> holds the address of its board.\<close>

type_synonym hframe = "guess \<times> nat \<times> addr"

text \<open>\<^verbatim>\<open>solvenext\<close> with at most \<open>k\<close> iterations of its loop.\<close>

fun solvenext_at :: "nat \<Rightarrow> rnd \<Rightarrow> hframe list \<Rightarrow> store \<Rightarrow>
    ((error + hframe list \<times> addr option \<times> rnd) \<times> store) option" where
  "solvenext_at k r [] h = Some (Inr ([], None, r), h)"
| "solvenext_at 0 r (f # remembered) h = None"
| "solvenext_at (Suc k) r ((guesses, c, board) # remembered) h =
     (if c \<ge> length guesses then solvenext_at k r remembered h
      else (case alloc (h ! board) h of (workspace, h1) \<Rightarrow>
        (case write_cell workspace (fst (guesses ! c)) (Some (snd (guesses ! c))) h1 of
           Inl e \<Rightarrow> Some (Inl e, h1)
         | Inr h2 \<Rightarrow>
             (case deduce_at r workspace h2 of
                (Inl e, h3) \<Rightarrow> Some (Inl e, h3)
              | (Inr (None, r'), h3) \<Rightarrow>
                  Some (Inr ((guesses, c + 1, board) # remembered, Some workspace, r'), h3)
              | (Inr (Some guesses', r'), h3) \<Rightarrow>
                  solvenext_at k r'
                    ((guesses', 0, workspace) # (guesses, c + 1, board) # remembered) h3))))"

text \<open>\<^verbatim>\<open>solveboard(original)\<close>; the answer is the address of the board that holds it.\<close>

definition solveboard_at :: "nat \<Rightarrow> rnd \<Rightarrow> addr \<Rightarrow> store \<Rightarrow>
    ((error + hframe list \<times> addr option \<times> rnd) \<times> store) option" where
  "solveboard_at k r original h =
     (case alloc (h ! original) h of (board, h1) \<Rightarrow>
        (case deduce_at r board h1 of
           (Inl e, h2) \<Rightarrow> Some (Inl e, h2)
         | (Inr (None, r'), h2) \<Rightarrow> Some (Inr ([], Some board, r'), h2)
         | (Inr (Some guesses, r'), h2) \<Rightarrow> solvenext_at k r' [(guesses, 0, board)] h2))"

text \<open>\<^verbatim>\<open>solution(board)\<close>.\<close>

definition solution_at :: "nat \<Rightarrow> rnd \<Rightarrow> addr \<Rightarrow> store \<Rightarrow>
    ((error + addr option \<times> rnd) \<times> store) option" where
  "solution_at k r board h =
     (case solveboard_at k r board h of
        None \<Rightarrow> None
      | Some (Inl e, h1) \<Rightarrow> Some (Inl e, h1)
      | Some (Inr (state, answer, r1), h1) \<Rightarrow> Some (Inr (answer, r1), h1))"

text \<open>\<^verbatim>\<open>checkpuzzle(puzzle, board = None)\<close>.\<close>

definition checkpuzzle_at :: "nat \<Rightarrow> rnd \<Rightarrow> addr \<Rightarrow> addr option \<Rightarrow> store \<Rightarrow>
    ((error + int \<times> rnd) \<times> store) option" where
  "checkpuzzle_at k r puzzle board h =
     (case solveboard_at k r puzzle h of
        None \<Rightarrow> None
      | Some (Inl e, h1) \<Rightarrow> Some (Inl e, h1)
      | Some (Inr (state, answer, r1), h1) \<Rightarrow>
          (case answer of
             None \<Rightarrow> Some (Inr (- 1, r1), h1)
           | Some a \<Rightarrow>
               (case (case board of None \<Rightarrow> Inr True | Some b \<Rightarrow> boardmatches (h1 ! b) (h1 ! a)) of
                  Inl e \<Rightarrow> Some (Inl e, h1)
                | Inr False \<Rightarrow> Some (Inr (- 1, r1), h1)
                | Inr True \<Rightarrow>
                    (case solvenext_at k r1 state h1 of
                       None \<Rightarrow> None
                     | Some (Inl e, h2) \<Rightarrow> Some (Inl e, h2)
                     | Some (Inr (state', second, r2), h2) \<Rightarrow>
                         if second \<noteq> None then Some (Inr (- 1, r2), h2)
                         else Some (Inr (int (length state), r2), h2)))))"

text \<open>
  \<^verbatim>\<open>ratepuzzle(puzzle, samples)\<close>: the loop with \<open>n\<close> rounds to go, which gives the total \<open>tot\<close>, or
  nothing when a round found no answer; then the mean, and \<^verbatim>\<open>ZeroDivisionError\<close> for no
  samples.
\<close>

fun ratepuzzle_loop :: "nat \<Rightarrow> nat \<Rightarrow> int \<Rightarrow> rnd \<Rightarrow> addr \<Rightarrow> store \<Rightarrow>
    ((error + int option \<times> rnd) \<times> store) option" where
  "ratepuzzle_loop k 0 tot r puzzle h = Some (Inr (Some tot, r), h)"
| "ratepuzzle_loop k (Suc n) tot r puzzle h =
     (case solveboard_at k r puzzle h of
        None \<Rightarrow> None
      | Some (Inl e, h1) \<Rightarrow> Some (Inl e, h1)
      | Some (Inr (state, answer, r1), h1) \<Rightarrow>
          if answer = None then Some (Inr (None, r1), h1)
          else ratepuzzle_loop k n (tot + int (length state)) r1 puzzle h1)"

datatype rate_error = Raised error | ZeroDivisionError

definition ratepuzzle_at :: "nat \<Rightarrow> rnd \<Rightarrow> addr \<Rightarrow> int \<Rightarrow> store \<Rightarrow>
    ((rate_error + real \<times> rnd) \<times> store) option" where
  "ratepuzzle_at k r puzzle samples h =
     (case ratepuzzle_loop k (nat samples) 0 r puzzle h of
        None \<Rightarrow> None
      | Some (Inl e, h1) \<Rightarrow> Some (Inl (Raised e), h1)
      | Some (Inr (None, r1), h1) \<Rightarrow> Some (Inr (- 1, r1), h1)
      | Some (Inr (Some tot, r1), h1) \<Rightarrow>
          if samples = 0 then Some (Inl ZeroDivisionError, h1)
          else Some (Inr (real_of_int tot / real_of_int samples, r1), h1))"

subsection \<open>One iteration\<close>

lemma solvenext_at_pop:
  "length g \<le> c \<Longrightarrow> solvenext_at (Suc k) r ((g, c, a) # rest) h = solvenext_at k r rest h"
  by simp

lemma solvenext_at_step:
  assumes "c < length g"
  shows "solvenext_at (Suc k) r ((g, c, a) # rest) h =
     (if fst (g ! c) \<ge> length (h ! a) then Some (Inl IndexError, h @ [h ! a])
      else (case deduce r ((h ! a)[fst (g ! c) := Some (snd (g ! c))]) of
              Inl e \<Rightarrow> Some (Inl e, h @ [(h ! a)[fst (g ! c) := Some (snd (g ! c))]])
            | Inr (None, w', r') \<Rightarrow>
                Some (Inr ((g, c + 1, a) # rest, Some (length h), r'), h @ [w'])
            | Inr (Some gs, w', r') \<Rightarrow>
                solvenext_at k r' ((gs, 0, length h) # (g, c + 1, a) # rest) (h @ [w'])))"
  using assms
  by (simp add: alloc_def write_cell_def deduce_at_def split: sum.splits option.splits prod.splits)

lemma solveboard_at_step:
  "solveboard_at k r original h =
     (case deduce r (h ! original) of
        Inl e \<Rightarrow> Some (Inl e, h @ [h ! original])
      | Inr (None, w', r') \<Rightarrow> Some (Inr ([], Some (length h), r'), h @ [w'])
      | Inr (Some gs, w', r') \<Rightarrow> solvenext_at k r' [(gs, 0, length h)] (h @ [w']))"
  by (simp add: solveboard_at_def alloc_def deduce_at_def split: sum.splits option.splits prod.splits)

subsection \<open>The boards that exist are kept\<close>

text \<open>Store \<open>h'\<close> holds every board of store \<open>h\<close>, at the same address and unchanged.\<close>

definition grows :: "store \<Rightarrow> store \<Rightarrow> bool" where
  "grows h h' \<longleftrightarrow> length h \<le> length h' \<and> (\<forall>a<length h. h' ! a = h ! a)"

lemma grows_refl: "grows h h"
  by (simp add: grows_def)

lemma grows_trans: "grows h h1 \<Longrightarrow> grows h1 h2 \<Longrightarrow> grows h h2"
  by (auto simp: grows_def)

lemma grows_append: "grows h (h @ xs)"
  by (simp add: grows_def nth_append)

lemma growsD: "grows h h' \<Longrightarrow> a < length h \<Longrightarrow> h' ! a = h ! a"
  by (simp add: grows_def)

lemma solvenext_at_grows:
  "solvenext_at k r st h = Some (res, h') \<Longrightarrow> grows h h'"
proof (induction k arbitrary: r st h)
  case 0
  then show ?case by (cases st) (simp_all add: grows_refl)
next
  case (Suc k)
  show ?case
  proof (cases st)
    case Nil
    then show ?thesis using Suc.prems by (simp add: grows_refl)
  next
    case (Cons f rest)
    obtain g c a where f: "f = (g, c, a)" by (cases f)
    show ?thesis
    proof (cases "length g \<le> c")
      case True
      then show ?thesis using Suc.prems Suc.IH unfolding Cons f by (simp only: solvenext_at_pop)
    next
      case False
      then have c: "c < length g" by simp
      note st = Suc.prems [unfolded Cons f solvenext_at_step [OF c]]
      show ?thesis
      proof (cases "fst (g ! c) \<ge> length (h ! a)")
        case True
        then show ?thesis using st grows_append by auto
      next
        case nr: False
        show ?thesis
        proof (cases "deduce r ((h ! a)[fst (g ! c) := Some (snd (g ! c))])")
          case (Inl e)
          then show ?thesis using st nr grows_append by auto
        next
          case (Inr x)
          obtain gg w' r' where x: "x = (gg, w', r')" by (cases x)
          show ?thesis
          proof (cases gg)
            case None
            then show ?thesis using st nr Inr x grows_append by auto
          next
            case (Some gs)
            then have "solvenext_at k r' ((gs, 0, length h) # (g, c + 1, a) # rest) (h @ [w']) =
                Some (res, h')"
              using st nr Inr x by simp
            then have "grows (h @ [w']) h'" by (rule Suc.IH)
            then show ?thesis using grows_trans [OF grows_append] by blast
          qed
        qed
      qed
    qed
  qed
qed

lemma solveboard_at_grows:
  assumes "solveboard_at k r original h = Some (res, h')"
  shows "grows h h'"
proof (cases "deduce r (h ! original)")
  case (Inl e)
  then show ?thesis using assms grows_append by (auto simp: solveboard_at_step)
next
  case (Inr x)
  obtain gg w' r' where x: "x = (gg, w', r')" by (cases x)
  show ?thesis
  proof (cases gg)
    case None
    then show ?thesis using assms Inr x grows_append by (auto simp: solveboard_at_step)
  next
    case (Some gs)
    then have "solvenext_at k r' [(gs, 0, length h)] (h @ [w']) = Some (res, h')"
      using assms Inr x by (simp add: solveboard_at_step)
    then have "grows (h @ [w']) h'" by (rule solvenext_at_grows)
    then show ?thesis using grows_trans [OF grows_append] by blast
  qed
qed

lemma solution_at_grows:
  "solution_at k r board h = Some (res, h') \<Longrightarrow> grows h h'"
  unfolding solution_at_def using solveboard_at_grows [of k r board h]
  by (auto split: option.splits sum.splits prod.splits)

lemma checkpuzzle_at_grows:
  assumes "checkpuzzle_at k r puzzle board h = Some (res, h')"
  shows "grows h h'"
proof (cases "solveboard_at k r puzzle h")
  case None
  then show ?thesis using assms by (simp add: checkpuzzle_at_def)
next
  case (Some x)
  obtain res1 h1 where x: "x = (res1, h1)" by (cases x)
  have g1: "grows h h1" using solveboard_at_grows Some x by blast
  have "h' = h1 \<or> (\<exists>state r1 res2. solvenext_at k r1 state h1 = Some (res2, h'))"
    using assms Some x unfolding checkpuzzle_at_def
    by (auto split: option.splits sum.splits prod.splits bool.splits if_splits)
  then show ?thesis using g1 solvenext_at_grows grows_trans by blast
qed

lemma ratepuzzle_loop_grows:
  "ratepuzzle_loop k n tot r puzzle h = Some (res, h') \<Longrightarrow> grows h h'"
proof (induction n arbitrary: tot r h)
  case 0
  then show ?case by (simp add: grows_refl)
next
  case (Suc n)
  show ?case
  proof (cases "solveboard_at k r puzzle h")
    case None
    then show ?thesis using Suc.prems by simp
  next
    case (Some x)
    obtain res1 h1 where x: "x = (res1, h1)" by (cases x)
    have g1: "grows h h1" using solveboard_at_grows Some x by blast
    have "h' = h1 \<or> (\<exists>tot1 r1. ratepuzzle_loop k n tot1 r1 puzzle h1 = Some (res, h'))"
      using Suc.prems Some x
      by (auto split: option.splits sum.splits prod.splits if_splits)
    then show ?thesis using g1 Suc.IH grows_trans by blast
  qed
qed

lemma ratepuzzle_at_grows:
  assumes "ratepuzzle_at k r puzzle samples h = Some (res, h')"
  shows "grows h h'"
proof -
  have "\<exists>res1. ratepuzzle_loop k (nat samples) 0 r puzzle h = Some (res1, h')"
    using assms unfolding ratepuzzle_at_def
    by (auto split: option.splits sum.splits prod.splits if_splits)
  then show ?thesis using ratepuzzle_loop_grows by blast
qed

lemma deduce_at_others:
  "deduce_at r a h = (res, h') \<Longrightarrow> length h' = length h \<and> (\<forall>a'. a' \<noteq> a \<longrightarrow> h' ! a' = h ! a')"
  unfolding deduce_at_def by (auto split: sum.splits prod.splits)

subsection \<open>The search on objects and the search on values\<close>

text \<open>The frame of values that a frame of addresses stands for, in store \<open>h\<close>.\<close>

definition view :: "store \<Rightarrow> hframe \<Rightarrow> frame" where
  "view h f = (case f of (g, c, a) \<Rightarrow> (g, c, h ! a))"

definition valid :: "store \<Rightarrow> hframe list \<Rightarrow> bool" where
  "valid h st \<longleftrightarrow> (\<forall>f \<in> set st. snd (snd f) < length h)"

text \<open>
  A result on objects stands for a result on values: the same error, or the stack and
  the answer read in the store.
\<close>

fun abstracts :: "store \<Rightarrow> (error + hframe list \<times> addr option \<times> rnd) \<Rightarrow>
    (error + frame list \<times> board option \<times> rnd) \<Rightarrow> bool" where
  "abstracts h (Inl e) res = (res = Inl e)"
| "abstracts h (Inr (st, a, r)) res =
     (valid h st \<and> (case a of None \<Rightarrow> True | Some x \<Rightarrow> x < length h) \<and>
      res = Inr (map (view h) st, map_option (nth h) a, r))"

lemma view_simp [simp]: "view h (g, c, a) = (g, c, h ! a)"
  by (simp add: view_def)

lemma valid_Nil [simp]: "valid h []"
  by (simp add: valid_def)

lemma valid_Cons [simp]: "valid h ((g, c, a) # st) \<longleftrightarrow> a < length h \<and> valid h st"
  by (simp add: valid_def)

lemma valid_grows:
  assumes "valid h st" and "grows h h'"
  shows "valid h' st" and "map (view h') st = map (view h) st"
proof -
  show "valid h' st" using assms by (auto simp: valid_def grows_def)
  have "view h' f = view h f" if "f \<in> set st" for f
  proof -
    obtain g c a where f: "f = (g, c, a)" by (cases f)
    then have "a < length h" using assms(1) that by (auto simp: valid_def)
    then show ?thesis using growsD [OF assms(2)] f by simp
  qed
  then show "map (view h') st = map (view h) st" by simp
qed

lemma solvenext_at_refines:
  "valid h st \<Longrightarrow> solvenext_fuel k r (map (view h) st) = Some res \<Longrightarrow>
   \<exists>resh h'. solvenext_at k r st h = Some (resh, h') \<and> abstracts h' resh res"
proof (induction k arbitrary: r st h)
  case 0
  then show ?case by (cases st) simp_all
next
  case (Suc k)
  show ?case
  proof (cases st)
    case Nil
    then show ?thesis using Suc.prems by simp
  next
    case (Cons f rest)
    obtain g c a where f: "f = (g, c, a)" by (cases f)
    have a: "a < length h" and vr: "valid h rest" using Suc.prems(1) Cons f by simp_all
    note pure = Suc.prems(2) [unfolded Cons f, simplified]
    show ?thesis
    proof (cases "length g \<le> c")
      case True
      then have "solvenext_fuel k r (map (view h) rest) = Some res" using pure by simp
      from Suc.IH [OF vr this] show ?thesis unfolding Cons f using True by simp
    next
      case False
      then have c: "c < length g" by simp
      note step = solvenext_at_step [OF c, of k r a rest h]
      let ?b = "(h ! a)[fst (g ! c) := Some (snd (g ! c))]"
      show ?thesis
      proof (cases "fst (g ! c) \<ge> length (h ! a)")
        case True
        then show ?thesis unfolding Cons f step using pure c by auto
      next
        case nr: False
        show ?thesis
        proof (cases "deduce r ?b")
          case (Inl e)
          then show ?thesis unfolding Cons f step using pure c nr by auto
        next
          case (Inr x)
          obtain gg w' r' where x: "x = (gg, w', r')" by (cases x)
          have gr: "grows h (h @ [w'])" by (rule grows_append)
          have va: "valid (h @ [w']) ((g, c + 1, a) # rest)"
            using valid_grows(1) [OF Suc.prems(1) [unfolded Cons f] gr] by simp
          have vw: "map (view (h @ [w'])) ((g, c + 1, a) # rest) =
              (g, c + 1, h ! a) # map (view h) rest"
            using valid_grows(2) [OF Suc.prems(1) [unfolded Cons f] gr] by simp
          show ?thesis
          proof (cases gg)
            case None
            have "res = Inr ((g, c + 1, h ! a) # map (view h) rest, Some w', r')"
              using pure c nr Inr x None by simp
            moreover have "solvenext_at (Suc k) r ((g, c, a) # rest) h =
                Some (Inr ((g, c + 1, a) # rest, Some (length h), r'), h @ [w'])"
              unfolding step using nr Inr x None by simp
            ultimately show ?thesis unfolding Cons f using va vw by simp
          next
            case (Some gs)
            let ?st = "(gs, 0, length h) # (g, c + 1, a) # rest"
            have v2: "valid (h @ [w']) ?st" using va by simp
            have eq: "map (view (h @ [w'])) ?st = (gs, 0, w') # (g, c + 1, h ! a) # map (view h) rest"
              using vw by simp
            have "solvenext_fuel k r' (map (view (h @ [w'])) ?st) = Some res"
              unfolding eq using pure c nr Inr x Some by simp
            from Suc.IH [OF v2 this] obtain resh h' where
              "solvenext_at k r' ?st (h @ [w']) = Some (resh, h')" "abstracts h' resh res" by blast
            moreover have "solvenext_at (Suc k) r ((g, c, a) # rest) h =
                solvenext_at k r' ?st (h @ [w'])"
              unfolding step using nr Inr x Some by simp
            ultimately show ?thesis unfolding Cons f by simp
          qed
        qed
      qed
    qed
  qed
qed

text \<open>More iterations allowed give the same result.\<close>

lemma solvenext_at_Suc:
  "solvenext_at k r st h = Some x \<Longrightarrow> solvenext_at (Suc k) r st h = Some x"
proof (induction k arbitrary: r st h)
  case 0
  then show ?case by (cases st) simp_all
next
  case (Suc k)
  show ?case
  proof (cases st)
    case Nil
    then show ?thesis using Suc.prems by simp
  next
    case (Cons f rest)
    obtain g c a where f: "f = (g, c, a)" by (cases f)
    show ?thesis
    proof (cases "length g \<le> c")
      case True
      then have "solvenext_at k r rest h = Some x" using Suc.prems Cons f by simp
      then have "solvenext_at (Suc k) r rest h = Some x" by (rule Suc.IH)
      then show ?thesis unfolding Cons f using True by (simp only: solvenext_at_pop)
    next
      case False
      then have c: "c < length g" by simp
      note p = Suc.prems [unfolded Cons f solvenext_at_step [OF c]]
      let ?b = "(h ! a)[fst (g ! c) := Some (snd (g ! c))]"
      show ?thesis unfolding Cons f solvenext_at_step [OF c, of "Suc k"]
      proof (cases "fst (g ! c) \<ge> length (h ! a)")
        case True
        then show "(if length (h ! a) \<le> fst (g ! c) then Some (Inl IndexError, h @ [h ! a])
            else case deduce r ?b of
              Inl e \<Rightarrow> Some (Inl e, h @ [?b])
            | Inr (None, w', r') \<Rightarrow> Some (Inr ((g, c + 1, a) # rest, Some (length h), r'), h @ [w'])
            | Inr (Some gs, w', r') \<Rightarrow>
                solvenext_at (Suc k) r' ((gs, 0, length h) # (g, c + 1, a) # rest) (h @ [w'])) = Some x"
          using p by simp
      next
        case nr: False
        show "(if length (h ! a) \<le> fst (g ! c) then Some (Inl IndexError, h @ [h ! a])
            else case deduce r ?b of
              Inl e \<Rightarrow> Some (Inl e, h @ [?b])
            | Inr (None, w', r') \<Rightarrow> Some (Inr ((g, c + 1, a) # rest, Some (length h), r'), h @ [w'])
            | Inr (Some gs, w', r') \<Rightarrow>
                solvenext_at (Suc k) r' ((gs, 0, length h) # (g, c + 1, a) # rest) (h @ [w'])) = Some x"
        proof (cases "deduce r ?b")
          case (Inl e)
          then show ?thesis using p nr by simp
        next
          case (Inr y)
          obtain gg w' r' where y: "y = (gg, w', r')" by (cases y)
          show ?thesis
          proof (cases gg)
            case None
            then show ?thesis using p nr Inr y by simp
          next
            case (Some gs)
            then have "solvenext_at k r' ((gs, 0, length h) # (g, c + 1, a) # rest) (h @ [w']) = Some x"
              using p nr Inr y by simp
            then have "solvenext_at (Suc k) r' ((gs, 0, length h) # (g, c + 1, a) # rest) (h @ [w']) = Some x"
              by (rule Suc.IH)
            then show ?thesis using nr Inr y Some by (simp del: solvenext_at.simps)
          qed
        qed
      qed
    qed
  qed
qed

lemma solvenext_at_mono:
  "solvenext_at k r st h = Some x \<Longrightarrow> k \<le> k' \<Longrightarrow> solvenext_at k' r st h = Some x"
proof (induction k' arbitrary: k)
  case 0
  then show ?case by simp
next
  case (Suc k')
  show ?case
  proof (cases "k = Suc k'")
    case True
    then show ?thesis using Suc.prems by simp
  next
    case False
    then have "k \<le> k'" using Suc.prems by simp
    then show ?thesis using Suc.IH Suc.prems(1) solvenext_at_Suc by blast
  qed
qed

lemma solvenext_at_returns:
  assumes "valid h st"
  shows "\<exists>k resh h'. (\<forall>k'\<ge>k. solvenext_at k' r st h = Some (resh, h')) \<and>
           abstracts h' resh (solvenext r (map (view h) st))"
proof -
  obtain k where "solvenext_fuel k r (map (view h) st) = Some (solvenext r (map (view h) st))"
    using solvenext_fuel_enough by blast
  from solvenext_at_refines [OF assms this] obtain resh h' where
    s: "solvenext_at k r st h = Some (resh, h')"
    and a: "abstracts h' resh (solvenext r (map (view h) st))" by blast
  have "\<forall>k'\<ge>k. solvenext_at k' r st h = Some (resh, h')" using solvenext_at_mono [OF s] by blast
  then show ?thesis using a by blast
qed

lemma solveboard_at_returns:
  assumes "original < length h"
  shows "\<exists>k resh h'. (\<forall>k'\<ge>k. solveboard_at k' r original h = Some (resh, h')) \<and>
           abstracts h' resh (solveboard r (h ! original))"
proof (cases "deduce r (h ! original)")
  case (Inl e)
  then have "\<forall>k'\<ge>0. solveboard_at k' r original h = Some (Inl e, h @ [h ! original])"
    by (simp add: solveboard_at_step)
  moreover have "abstracts (h @ [h ! original]) (Inl e) (solveboard r (h ! original))"
    using Inl by (simp add: solveboard_def)
  ultimately show ?thesis by blast
next
  case (Inr x)
  obtain gg w' r' where x: "x = (gg, w', r')" by (cases x)
  show ?thesis
  proof (cases gg)
    case None
    then have "\<forall>k'\<ge>0. solveboard_at k' r original h =
        Some (Inr ([], Some (length h), r'), h @ [w'])"
      using Inr x by (simp add: solveboard_at_step)
    moreover have "abstracts (h @ [w']) (Inr ([], Some (length h), r')) (solveboard r (h ! original))"
      using Inr x None by (simp add: solveboard_def)
    ultimately show ?thesis by blast
  next
    case (Some gs)
    have v: "valid (h @ [w']) [(gs, 0, length h)]" by simp
    have "map (view (h @ [w'])) [(gs, 0, length h)] = [(gs, 0, w')]" by simp
    then obtain k resh h' where
      s: "\<forall>k'\<ge>k. solvenext_at k' r' [(gs, 0, length h)] (h @ [w']) = Some (resh, h')"
      and a: "abstracts h' resh (solvenext r' [(gs, 0, w')])"
      using solvenext_at_returns [OF v, of r'] by auto
    have "\<forall>k'\<ge>k. solveboard_at k' r original h = Some (resh, h')"
      using s Inr x Some by (simp add: solveboard_at_step)
    moreover have "solveboard r (h ! original) = solvenext r' [(gs, 0, w')]"
      using Inr x Some by (simp add: solveboard_def)
    ultimately show ?thesis using a by auto
  qed
qed

subsection \<open>The callers of solveboard return\<close>

lemma solution_at_returns:
  assumes "board < length h"
  shows "\<exists>k res h'. \<forall>k'\<ge>k. solution_at k' r board h = Some (res, h')"
proof -
  obtain k resh h' where s: "\<forall>k'\<ge>k. solveboard_at k' r board h = Some (resh, h')"
    using solveboard_at_returns [OF assms, of r] by blast
  show ?thesis
  proof (cases resh)
    case (Inl e)
    then have "\<forall>k'\<ge>k. solution_at k' r board h = Some (Inl e, h')"
      using s by (simp add: solution_at_def)
    then show ?thesis by blast
  next
    case (Inr x)
    obtain state answer r1 where x: "x = (state, answer, r1)" by (cases x)
    have "\<forall>k'\<ge>k. solution_at k' r board h = Some (Inr (answer, r1), h')"
      using s Inr x by (simp add: solution_at_def)
    then show ?thesis by blast
  qed
qed

text \<open>\<open>checkpuzzle\<close> on objects returns what \<open>checkpuzzle\<close> on their values returns.\<close>

lemma checkpuzzle_at_returns:
  assumes "puzzle < length h" and "case board of None \<Rightarrow> True | Some b \<Rightarrow> b < length h"
  shows "\<exists>k h'. \<forall>k'\<ge>k. checkpuzzle_at k' r puzzle board h =
           Some (checkpuzzle r (h ! puzzle) (map_option (nth h) board), h')"
proof -
  obtain k1 resh h1 where s: "\<forall>k'\<ge>k1. solveboard_at k' r puzzle h = Some (resh, h1)"
    and a: "abstracts h1 resh (solveboard r (h ! puzzle))"
    using solveboard_at_returns [OF assms(1), of r] by blast
  have "solveboard_at k1 r puzzle h = Some (resh, h1)" using s by simp
  then have gr: "grows h h1" by (rule solveboard_at_grows)
  show ?thesis
  proof (cases resh)
    case (Inl e)
    then have "solveboard r (h ! puzzle) = Inl e" using a by simp
    then have "\<forall>k'\<ge>k1. checkpuzzle_at k' r puzzle board h =
        Some (checkpuzzle r (h ! puzzle) (map_option (nth h) board), h1)"
      using s Inl by (simp add: checkpuzzle_at_def checkpuzzle_def)
    then show ?thesis by blast
  next
    case (Inr x)
    obtain state answer r1 where x: "x = (state, answer, r1)" by (cases x)
    have v: "valid h1 state"
      and p: "solveboard r (h ! puzzle) = Inr (map (view h1) state, map_option (nth h1) answer, r1)"
      using a Inr x by simp_all
    show ?thesis
    proof (cases answer)
      case None
      then have "\<forall>k'\<ge>k1. checkpuzzle_at k' r puzzle board h =
          Some (checkpuzzle r (h ! puzzle) (map_option (nth h) board), h1)"
        using s Inr x p by (simp add: checkpuzzle_at_def checkpuzzle_def)
      then show ?thesis by blast
    next
      case (Some w)
      define m where
        "m = (case board of None \<Rightarrow> Inr True | Some b \<Rightarrow> boardmatches (h1 ! b) (h1 ! w))"
      have m: "(case map_option (nth h) board of None \<Rightarrow> Inr True
          | Some b \<Rightarrow> boardmatches b (h1 ! w)) = m"
        using assms(2) growsD [OF gr] by (cases board) (simp_all add: m_def)
      have at: "checkpuzzle_at k' r puzzle board h =
          (case m of
             Inl e \<Rightarrow> Some (Inl e, h1)
           | Inr False \<Rightarrow> Some (Inr (- 1, r1), h1)
           | Inr True \<Rightarrow>
               (case solvenext_at k' r1 state h1 of
                  None \<Rightarrow> None
                | Some (Inl e, h2) \<Rightarrow> Some (Inl e, h2)
                | Some (Inr (state', second, r2), h2) \<Rightarrow>
                    if second \<noteq> None then Some (Inr (- 1, r2), h2)
                    else Some (Inr (int (length state), r2), h2)))" if "k1 \<le> k'" for k'
        using s that Inr x Some by (simp add: checkpuzzle_at_def m_def)
      have pu: "checkpuzzle r (h ! puzzle) (map_option (nth h) board) =
          (case m of
             Inl e \<Rightarrow> Inl e
           | Inr False \<Rightarrow> Inr (- 1, r1)
           | Inr True \<Rightarrow>
               (case solvenext r1 (map (view h1) state) of
                  Inl e \<Rightarrow> Inl e
                | Inr (state', second, r2) \<Rightarrow>
                    if second \<noteq> None then Inr (- 1, r2)
                    else Inr (int (length state), r2)))"
        using p Some m by (simp add: checkpuzzle_def split: sum.splits bool.splits prod.splits)
      show ?thesis
      proof (cases m)
        case (Inl e)
        then have "\<forall>k'\<ge>k1. checkpuzzle_at k' r puzzle board h =
            Some (checkpuzzle r (h ! puzzle) (map_option (nth h) board), h1)"
          using at pu by simp
        then show ?thesis by blast
      next
        case mr: (Inr t)
        show ?thesis
        proof (cases t)
          case False
          then have "\<forall>k'\<ge>k1. checkpuzzle_at k' r puzzle board h =
              Some (checkpuzzle r (h ! puzzle) (map_option (nth h) board), h1)"
            using at pu mr by simp
          then show ?thesis by blast
        next
          case True
          obtain k2 resh2 h2 where
            s2: "\<forall>k'\<ge>k2. solvenext_at k' r1 state h1 = Some (resh2, h2)"
            and a2: "abstracts h2 resh2 (solvenext r1 (map (view h1) state))"
            using solvenext_at_returns [OF v, of r1] by blast
          have "checkpuzzle_at k' r puzzle board h =
              Some (checkpuzzle r (h ! puzzle) (map_option (nth h) board), h2)"
            if k': "max k1 k2 \<le> k'" for k'
          proof (cases resh2)
            case (Inl e)
            then have "solvenext r1 (map (view h1) state) = Inl e" using a2 by simp
            then show ?thesis using at [of k'] pu mr True s2 k' Inl by simp
          next
            case (Inr y)
            obtain state' second r2 where y: "y = (state', second, r2)" by (cases y)
            have "solvenext r1 (map (view h1) state) =
                Inr (map (view h2) state', map_option (nth h2) second, r2)"
              using a2 Inr y by simp
            then show ?thesis using at [of k'] pu mr True s2 k' Inr y by simp
          qed
          then show ?thesis by blast
        qed
      qed
    qed
  qed
qed

lemma ratepuzzle_loop_returns:
  "puzzle < length h \<Longrightarrow>
   \<exists>k res h'. \<forall>k'\<ge>k. ratepuzzle_loop k' n tot r puzzle h = Some (res, h')"
proof (induction n arbitrary: tot r h)
  case 0
  then show ?case by simp
next
  case (Suc n)
  obtain k1 resh h1 where s: "\<forall>k'\<ge>k1. solveboard_at k' r puzzle h = Some (resh, h1)"
    using solveboard_at_returns [OF Suc.prems, of r] by blast
  have "solveboard_at k1 r puzzle h = Some (resh, h1)" using s by simp
  then have "grows h h1" by (rule solveboard_at_grows)
  then have p1: "puzzle < length h1" using Suc.prems by (simp add: grows_def)
  show ?case
  proof (cases resh)
    case (Inl e)
    then have "\<forall>k'\<ge>k1. ratepuzzle_loop k' (Suc n) tot r puzzle h = Some (Inl e, h1)"
      using s by simp
    then show ?thesis by blast
  next
    case (Inr x)
    obtain state answer r1 where x: "x = (state, answer, r1)" by (cases x)
    show ?thesis
    proof (cases answer)
      case None
      then have "\<forall>k'\<ge>k1. ratepuzzle_loop k' (Suc n) tot r puzzle h = Some (Inr (None, r1), h1)"
        using s Inr x by simp
      then show ?thesis by blast
    next
      case (Some w)
      obtain k2 res h' where
        l: "\<forall>k'\<ge>k2. ratepuzzle_loop k' n (tot + int (length state)) r1 puzzle h1 = Some (res, h')"
        using Suc.IH [OF p1] by blast
      have "ratepuzzle_loop k' (Suc n) tot r puzzle h = Some (res, h')" if "max k1 k2 \<le> k'" for k'
        using s l Inr x Some that by simp
      then show ?thesis by blast
    qed
  qed
qed

lemma ratepuzzle_at_returns:
  assumes "puzzle < length h"
  shows "\<exists>k res h'. \<forall>k'\<ge>k. ratepuzzle_at k' r puzzle samples h = Some (res, h')"
proof -
  obtain k res h' where
    l: "\<forall>k'\<ge>k. ratepuzzle_loop k' (nat samples) 0 r puzzle h = Some (res, h')"
    using ratepuzzle_loop_returns [OF assms] by blast
  have "\<exists>res'. \<forall>k'\<ge>k. ratepuzzle_at k' r puzzle samples h = Some (res', h')"
  proof (cases res)
    case (Inl e)
    then show ?thesis using l by (simp add: ratepuzzle_at_def)
  next
    case (Inr x)
    obtain t r1 where x: "x = (t, r1)" by (cases x)
    show ?thesis
    proof (cases t)
      case None
      then show ?thesis using l Inr x by (simp add: ratepuzzle_at_def)
    next
      case (Some tot)
      then show ?thesis using l Inr x by (cases "samples = 0") (simp_all add: ratepuzzle_at_def)
    qed
  qed
  then show ?thesis by blast
qed

subsection \<open>A board that deduce changes\<close>

text \<open>The example board with its first cell emptied.\<close>

definition example_hole :: board where
  "example_hole = example_solution[0 := None]"

lemma hole_length: "length example_hole = 81"
  by (simp add: example_hole_def example_length)

lemma hole_single: "single_hole example_hole"
  unfolding single_hole_def
proof (intro exI [of _ 0] conjI allI impI)
  show "(0::nat) < 81" by simp
  show "example_hole ! 0 = None" by (simp add: example_hole_def example_length)
next
  fix p :: nat assume "p < 81" "p \<noteq> 0"
  then show "example_hole ! p \<noteq> None"
    using solved_filled [OF example_solved, of p] by (simp add: example_hole_def)
qed

lemma hole_solution: "solution_of example_hole example_solution"
proof -
  have "p < 81 \<and> example_hole ! p = None \<and> example_solution ! p \<noteq> None"
    if "example_solution ! p \<noteq> example_hole ! p" for p
  proof -
    have "p = 0" using that by (cases "p = 0") (simp_all add: example_hole_def)
    then show ?thesis
      using solved_filled [OF example_solved, of 0] by (simp add: example_hole_def example_length)
  qed
  then have "extends example_hole example_solution"
    unfolding extends_def by (simp add: hole_length example_length)
  then show ?thesis using example_solved by (simp add: solution_of_def)
qed

lemma deduce_changes_hole:
  "\<exists>g b' r'. deduce r example_hole = Inr (g, b', r') \<and> b' \<noteq> example_hole"
proof -
  obtain g b' r' where d: "deduce r example_hole = Inr (g, b', r')"
    using deduce_ok [of example_hole r] by (auto simp: hole_length)
  have "\<not> single_hole b'" using deduce_not_single_hole [OF d hole_solution] .
  then have "b' \<noteq> example_hole" using hole_single by blast
  then show ?thesis using d by blast
qed

text \<open>
  C9. Let the caller's board be the object at address \<open>original\<close> of the store. Then
  \<^verbatim>\<open>solveboard(original)\<close> returns (with enough iterations allowed, what \<open>solveboard\<close> on
  the value of the board returns), and so do \<^verbatim>\<open>solution\<close>, \<^verbatim>\<open>checkpuzzle\<close> and
  \<^verbatim>\<open>ratepuzzle\<close>; and after any of these calls, with a result or an error, the board at
  \<open>original\<close> is the board it was, as is every other board that existed before the call.
  \<^verbatim>\<open>deduce(original)\<close> itself leaves every other board as it was and writes its result
  into the board at \<open>original\<close>.
\<close>

theorem solveboard_keeps_original:
  assumes "original < length h"
  shows
    "(\<exists>k res h'. (\<forall>k'\<ge>k. solveboard_at k' r original h = Some (res, h')) \<and>
        abstracts h' res (solveboard r (h ! original))) \<and>
     (solveboard_at k r original h = Some (res, h') \<longrightarrow>
        h' ! original = h ! original \<and> grows h h') \<and>
     (\<exists>k res h'. \<forall>k'\<ge>k. solution_at k' r original h = Some (res, h')) \<and>
     (solution_at k1 r original h = Some (res1, h1) \<longrightarrow>
        h1 ! original = h ! original \<and> grows h h1) \<and>
     ((case target of None \<Rightarrow> True | Some b \<Rightarrow> b < length h) \<longrightarrow>
        (\<exists>k h'. \<forall>k'\<ge>k. checkpuzzle_at k' r original target h =
           Some (checkpuzzle r (h ! original) (map_option (nth h) target), h'))) \<and>
     (checkpuzzle_at k2 r original target h = Some (res2, h2) \<longrightarrow>
        h2 ! original = h ! original \<and> grows h h2) \<and>
     (\<exists>k res h'. \<forall>k'\<ge>k. ratepuzzle_at k' r original samples h = Some (res, h')) \<and>
     (ratepuzzle_at k3 r original samples h = Some (res3, h3) \<longrightarrow>
        h3 ! original = h ! original \<and> grows h h3) \<and>
     (deduce_at r original h = (res4, h4) \<longrightarrow>
        length h4 = length h \<and> (\<forall>a. a \<noteq> original \<longrightarrow> h4 ! a = h ! a) \<and>
        (\<forall>g b' r'. deduce r (h ! original) = Inr (g, b', r') \<longrightarrow> h4 ! original = b'))"
proof (intro conjI impI)
  show "\<exists>k res h'. (\<forall>k'\<ge>k. solveboard_at k' r original h = Some (res, h')) \<and>
      abstracts h' res (solveboard r (h ! original))"
    using solveboard_at_returns [OF assms] .
next
  assume "solveboard_at k r original h = Some (res, h')"
  then show "grows h h'" by (rule solveboard_at_grows)
  then show "h' ! original = h ! original" using assms by (rule growsD)
next
  show "\<exists>k res h'. \<forall>k'\<ge>k. solution_at k' r original h = Some (res, h')"
    using solution_at_returns [OF assms] .
next
  assume "solution_at k1 r original h = Some (res1, h1)"
  then show "grows h h1" by (rule solution_at_grows)
  then show "h1 ! original = h ! original" using assms by (rule growsD)
next
  assume "case target of None \<Rightarrow> True | Some b \<Rightarrow> b < length h"
  then show "\<exists>k h'. \<forall>k'\<ge>k. checkpuzzle_at k' r original target h =
      Some (checkpuzzle r (h ! original) (map_option (nth h) target), h')"
    using checkpuzzle_at_returns [OF assms] by blast
next
  assume "checkpuzzle_at k2 r original target h = Some (res2, h2)"
  then show "grows h h2" by (rule checkpuzzle_at_grows)
  then show "h2 ! original = h ! original" using assms by (rule growsD)
next
  show "\<exists>k res h'. \<forall>k'\<ge>k. ratepuzzle_at k' r original samples h = Some (res, h')"
    using ratepuzzle_at_returns [OF assms] .
next
  assume "ratepuzzle_at k3 r original samples h = Some (res3, h3)"
  then show "grows h h3" by (rule ratepuzzle_at_grows)
  then show "h3 ! original = h ! original" using assms by (rule growsD)
next
  assume d: "deduce_at r original h = (res4, h4)"
  show "length h4 = length h" using deduce_at_others [OF d] by simp
  show "\<forall>a. a \<noteq> original \<longrightarrow> h4 ! a = h ! a" using deduce_at_others [OF d] by simp
  show "\<forall>g b' r'. deduce r (h ! original) = Inr (g, b', r') \<longrightarrow> h4 ! original = b'"
    using d assms by (auto simp: deduce_at_def)
qed

theorem solveboard_keeps_original_witness:
  "(\<exists>k res h'. solveboard_at k [] 0 [example_hole, example_solution] = Some (res, h') \<and>
      abstracts h' res (solveboard [] example_hole) \<and>
      h' ! 0 = example_hole \<and> h' ! 1 = example_solution) \<and>
   (\<exists>k res h'. solution_at k [] 0 [example_hole, example_solution] = Some (res, h') \<and>
      h' ! 0 = example_hole \<and> h' ! 1 = example_solution) \<and>
   (\<exists>k h'. checkpuzzle_at k [] 0 (Some 1) [example_hole, example_solution] =
        Some (checkpuzzle [] example_hole (Some example_solution), h') \<and>
      h' ! 0 = example_hole \<and> h' ! 1 = example_solution) \<and>
   (\<exists>k res h'. ratepuzzle_at k [] 0 2 [example_hole, example_solution] = Some (res, h') \<and>
      h' ! 0 = example_hole \<and> h' ! 1 = example_solution) \<and>
   (\<exists>res h'. deduce_at [] 0 [example_hole, example_solution] = (res, h') \<and>
      h' ! 0 \<noteq> example_hole \<and> h' ! 1 = example_solution)"
proof -
  let ?h = "[example_hole, example_solution]"
  have l: "0 < length ?h" by simp
  have t: "case Some (1::nat) of None \<Rightarrow> True | Some b \<Rightarrow> b < length ?h" by simp
  have one: "h' ! 1 = example_solution" if "grows ?h h'" for h'
    using growsD [OF that, of 1] by simp
  have 1: "\<exists>k res h'. solveboard_at k [] 0 ?h = Some (res, h') \<and>
      abstracts h' res (solveboard [] example_hole) \<and>
      h' ! 0 = example_hole \<and> h' ! 1 = example_solution"
  proof -
    note th = solveboard_keeps_original [OF l, of "[]"]
    from th [THEN conjunct1] obtain k res h' where
      s: "\<forall>k'\<ge>k. solveboard_at k' [] 0 ?h = Some (res, h')"
      and a: "abstracts h' res (solveboard [] (?h ! 0))" by blast
    have s': "solveboard_at k [] 0 ?h = Some (res, h')" using s by simp
    have "h' ! 0 = ?h ! 0 \<and> grows ?h h'"
      using solveboard_keeps_original [OF l, of "[]" k res h', THEN conjunct2, THEN conjunct1] s'
      by blast
    then show ?thesis using s' a one by auto
  qed
  have 2: "\<exists>k res h'. solution_at k [] 0 ?h = Some (res, h') \<and>
      h' ! 0 = example_hole \<and> h' ! 1 = example_solution"
  proof -
    from solveboard_keeps_original [OF l, of "[]",
        THEN conjunct2, THEN conjunct2, THEN conjunct1]
    obtain k res h' where s: "\<forall>k'\<ge>k. solution_at k' [] 0 ?h = Some (res, h')" by blast
    have s': "solution_at k [] 0 ?h = Some (res, h')" using s by simp
    have "h' ! 0 = ?h ! 0 \<and> grows ?h h'"
      using solveboard_keeps_original [OF l, of "[]" _ _ _ k res h',
          THEN conjunct2, THEN conjunct2, THEN conjunct2, THEN conjunct1] s'
      by blast
    then show ?thesis using s' one by auto
  qed
  have 3: "\<exists>k h'. checkpuzzle_at k [] 0 (Some 1) ?h =
        Some (checkpuzzle [] example_hole (Some example_solution), h') \<and>
      h' ! 0 = example_hole \<and> h' ! 1 = example_solution"
  proof -
    from solveboard_keeps_original [OF l, of "[]" _ _ _ _ _ _ "Some 1",
        THEN conjunct2, THEN conjunct2, THEN conjunct2, THEN conjunct2, THEN conjunct1] t
    obtain k h' where s: "\<forall>k'\<ge>k. checkpuzzle_at k' [] 0 (Some 1) ?h =
        Some (checkpuzzle [] (?h ! 0) (map_option (nth ?h) (Some 1)), h')" by blast
    have s': "checkpuzzle_at k [] 0 (Some 1) ?h =
        Some (checkpuzzle [] example_hole (Some example_solution), h')" using s by simp
    have "h' ! 0 = ?h ! 0 \<and> grows ?h h'"
      using solveboard_keeps_original [OF l, of "[]" _ _ _ _ _ _ "Some 1" k
          "checkpuzzle [] example_hole (Some example_solution)" h',
          THEN conjunct2, THEN conjunct2, THEN conjunct2, THEN conjunct2, THEN conjunct2,
          THEN conjunct1] s'
      by blast
    then show ?thesis using s' one by auto
  qed
  have 4: "\<exists>k res h'. ratepuzzle_at k [] 0 2 ?h = Some (res, h') \<and>
      h' ! 0 = example_hole \<and> h' ! 1 = example_solution"
  proof -
    from solveboard_keeps_original [OF l, of "[]" _ _ _ _ _ _ _ _ _ _ 2,
        THEN conjunct2, THEN conjunct2, THEN conjunct2, THEN conjunct2, THEN conjunct2,
        THEN conjunct2, THEN conjunct1]
    obtain k res h' where s: "\<forall>k'\<ge>k. ratepuzzle_at k' [] 0 2 ?h = Some (res, h')" by blast
    have s': "ratepuzzle_at k [] 0 2 ?h = Some (res, h')" using s by simp
    have "h' ! 0 = ?h ! 0 \<and> grows ?h h'"
      using solveboard_keeps_original [OF l, of "[]" _ _ _ _ _ _ _ _ _ _ 2 k res h',
          THEN conjunct2, THEN conjunct2, THEN conjunct2, THEN conjunct2, THEN conjunct2,
          THEN conjunct2, THEN conjunct2, THEN conjunct1] s'
      by blast
    then show ?thesis using s' one by auto
  qed
  have 5: "\<exists>res h'. deduce_at [] 0 ?h = (res, h') \<and>
      h' ! 0 \<noteq> example_hole \<and> h' ! 1 = example_solution"
  proof -
    obtain res h' where d: "deduce_at [] 0 ?h = (res, h')" by (cases "deduce_at [] 0 ?h")
    obtain g b' r' where b: "deduce [] example_hole = Inr (g, b', r')" "b' \<noteq> example_hole"
      using deduce_changes_hole by blast
    have "length h' = length ?h \<and> (\<forall>a. a \<noteq> 0 \<longrightarrow> h' ! a = ?h ! a) \<and>
        (\<forall>g b' r'. deduce [] (?h ! 0) = Inr (g, b', r') \<longrightarrow> h' ! 0 = b')"
      using solveboard_keeps_original [OF l, of "[]" _ _ _ _ _ _ _ _ _ _ _ _ _ _ res h',
          THEN conjunct2, THEN conjunct2, THEN conjunct2, THEN conjunct2, THEN conjunct2,
          THEN conjunct2, THEN conjunct2, THEN conjunct2] d
      by blast
    then have "h' ! 0 = b'" "h' ! 1 = example_solution" using b(1) by auto
    then show ?thesis using d b(2) by simp
  qed
  show ?thesis using 1 2 3 4 5 by (intro conjI)
qed

end
